theory Spec2Isabelle
  imports
    Main
    "HOL-Library.AList"
    "HOL-Library.Char_ord"
    "HOL-Library.List_Lexorder"
    "HOL-Library.Monad_Syntax"
    "HOL-Library.Multiset"
    "HOL-Library.Product_Lexorder"
begin

section \<open>The lint list generator \<^verbatim>\<open>util/update_lints.py\<close>\<close>

text \<open>
  The script collects \<^verbatim>\<open>declare_lint!\<close> declarations from the Rust sources below
  \<^verbatim>\<open>src\<close>, renders them as a Markdown table and as a lint group, and splices the
  renderings into \<^verbatim>\<open>README.md\<close> and \<^verbatim>\<open>src/lib.rs\<close>.

  Strings are byte strings (\<^typ>\<open>string\<close>), compared lexicographically byte by byte as
  Python compares \<^verbatim>\<open>str\<close>. Exceptions are values of \<open>py_error\<close>; a function that
  can raise returns \<open>py_error + 'a\<close>.
\<close>

subsection \<open>Python values and exceptions\<close>

datatype py_error = IOError | ValueError

definition bsl :: char where
  "bsl = CHR 0x5C"

definition dquote :: char where
  "dquote = CHR 0x22"

definition nl :: char where
  "nl = CHR 0x0A"

subsection \<open>Files\<close>

text \<open>
  A file system is a listing of the regular files with their contents, keyed by the path
  relative to the current directory. \<^verbatim>\<open>open(fn)\<close> raises \<^verbatim>\<open>IOError\<close> when there is
  no such file; \<^verbatim>\<open>open(fn, 'w')\<close> followed by \<^verbatim>\<open>writelines\<close> replaces the contents
  with the concatenation of the lines.
\<close>

type_synonym fs = "(string \<times> string) list"

definition read_file :: "fs \<Rightarrow> string \<Rightarrow> py_error + string" where
  "read_file files fn = (case map_of files fn of None \<Rightarrow> Inl IOError | Some c \<Rightarrow> Inr c)"

definition write_lines :: "string \<Rightarrow> string list \<Rightarrow> fs \<Rightarrow> fs" where
  "write_lines fn ls files = AList.update fn (concat ls) files"

text \<open>
  \<^verbatim>\<open>list(fp)\<close>: the lines of a file, each with its terminating newline; only the last
  line can lack one. (No carriage-return translation: the contents are taken as read on
  a POSIX system.)
\<close>

fun file_lines :: "string \<Rightarrow> string list" where
  "file_lines [] = []"
| "file_lines (c # cs) =
     (if c = nl then [c] # file_lines cs
      else (case file_lines cs of [] \<Rightarrow> [[c]] | l # ls \<Rightarrow> (c # l) # ls))"

subsection \<open>\<^verbatim>\<open>replace_region\<close>\<close>

text \<open>
  The two regular expressions enter only through \<^verbatim>\<open>re.search(pattern, line)\<close>, so they
  are predicates on lines. The callback is an arbitrary Python callable: it runs on a
  state of its own, which it may change, and returns the new lines or raises.

  \<open>scan_lines\<close> is the \<^verbatim>\<open>for line in lines\<close> loop, with the loop variables
  \<^verbatim>\<open>new_lines\<close> and \<^verbatim>\<open>in_old_region\<close> as arguments.
\<close>

type_synonym 's callback = "'s \<Rightarrow> (py_error + string list) \<times> 's"

fun scan_lines ::
  "(string \<Rightarrow> bool) \<Rightarrow> (string \<Rightarrow> bool) \<Rightarrow> 's callback \<Rightarrow> bool \<Rightarrow>
   string list \<Rightarrow> string list \<Rightarrow> bool \<Rightarrow> 's \<Rightarrow> (py_error + string list) \<times> 's" where
  "scan_lines region_start region_end cb replace_start [] new_lines in_old_region s =
     (Inr new_lines, s)"
| "scan_lines region_start region_end cb replace_start (line # lines) new_lines in_old_region s =
     (if in_old_region then
        (if region_end line then
           (case cb s of
              (Inl e, s') \<Rightarrow> (Inl e, s')
            | (Inr g, s') \<Rightarrow>
                scan_lines region_start region_end cb replace_start lines
                  (new_lines @ g @ [line]) False s')
         else scan_lines region_start region_end cb replace_start lines new_lines True s)
      else if region_start line then
        scan_lines region_start region_end cb replace_start lines
          (if \<not> replace_start then new_lines @ [line] else new_lines) True s
      else scan_lines region_start region_end cb replace_start lines (new_lines @ [line]) False s)"

definition replace_region ::
  "string \<Rightarrow> (string \<Rightarrow> bool) \<Rightarrow> (string \<Rightarrow> bool) \<Rightarrow> 's callback \<Rightarrow> bool \<Rightarrow> bool \<Rightarrow>
   fs \<Rightarrow> 's \<Rightarrow> (py_error + bool) \<times> fs \<times> 's" where
  "replace_region fn region_start region_end cb replace_start write_back files s =
     (case read_file files fn of
        Inl e \<Rightarrow> (Inl e, files, s)
      | Inr content \<Rightarrow>
          (let lines = file_lines content in
           case scan_lines region_start region_end cb replace_start lines [] False s of
             (Inl e, s') \<Rightarrow> (Inl e, files, s')
           | (Inr new_lines, s') \<Rightarrow>
               (Inr (lines \<noteq> new_lines),
                if write_back then write_lines fn new_lines files else files,
                s')))"

subsection \<open>Regular expressions\<close>

text \<open>
  The patterns of the script are translated one by one into matching functions. None of
  them can match in two ways at one position, so matching needs no backtracking:
  a greedy repetition is always followed by a character it cannot consume itself.
  \<^verbatim>\<open>\s\<close> is the ASCII white space of a byte-string pattern.
\<close>

definition is_space :: "char \<Rightarrow> bool" where
  "is_space c \<longleftrightarrow> c \<in> set [CHR '' '', CHR 0x09, CHR 0x0A, CHR 0x0D, CHR 0x0C, CHR 0x0B]"

definition is_digit :: "char \<Rightarrow> bool" where
  "is_digit c \<longleftrightarrow> CHR ''0'' \<le> c \<and> c \<le> CHR ''9''"

definition is_name_char :: "char \<Rightarrow> bool" where
  "is_name_char c \<longleftrightarrow> (CHR ''A'' \<le> c \<and> c \<le> CHR ''Z'') \<or> c = CHR ''_''"

definition skip_ws :: "string \<Rightarrow> string" where
  "skip_ws s = dropWhile is_space s"

text \<open>A literal at the start of the text: the rest of the text after it.\<close>

fun match_lit :: "string \<Rightarrow> string \<Rightarrow> string option" where
  "match_lit [] s = Some s"
| "match_lit (p # ps) [] = None"
| "match_lit (p # ps) (c # cs) = (if p = c then match_lit ps cs else None)"

text \<open>\<^verbatim>\<open>re.search\<close> with a pattern that is not anchored: a match at some position.\<close>

fun re_search :: "(string \<Rightarrow> bool) \<Rightarrow> string \<Rightarrow> bool" where
  "re_search m [] = m []"
| "re_search m (c # cs) = (m (c # cs) \<or> re_search m cs)"

text \<open>One character of a class; one character of a class, then \<^verbatim>\<open>\s*\<close>.\<close>

definition match_char :: "(char \<Rightarrow> bool) \<Rightarrow> string \<Rightarrow> string option" where
  "match_char cls s =
     (case s of
        [] \<Rightarrow> None
      | c # r \<Rightarrow> if cls c then Some r else None)"

definition match_char_ws :: "(char \<Rightarrow> bool) \<Rightarrow> string \<Rightarrow> string option" where
  "match_char_ws cls s = map_option skip_ws (match_char cls s)"

text \<open>\<^verbatim>\<open>\s*,\s*\<close>\<close>

definition match_comma :: "string \<Rightarrow> string option" where
  "match_comma s = match_char_ws (\<lambda>c. c = CHR '','') (skip_ws s)"

text \<open>\<^verbatim>\<open>(?P<level>Forbid|Deny|Warn|Allow)\<close>\<close>

definition match_level :: "string \<Rightarrow> (string \<times> string) option" where
  "match_level s =
     (case match_lit ''Forbid'' s of
        Some r \<Rightarrow> Some (''Forbid'', r)
      | None \<Rightarrow>
     (case match_lit ''Deny'' s of
        Some r \<Rightarrow> Some (''Deny'', r)
      | None \<Rightarrow>
     (case match_lit ''Warn'' s of
        Some r \<Rightarrow> Some (''Warn'', r)
      | None \<Rightarrow>
     (case match_lit ''Allow'' s of
        Some r \<Rightarrow> Some (''Allow'', r)
      | None \<Rightarrow> None))))"

text \<open>
  \<^verbatim>\<open>(?P<desc>(?:[^"\\]+|\\.)*) "\<close> after the opening quote: the description runs to the
  first quote that is not escaped by a backslash; with \<^verbatim>\<open>re.S\<close> a backslash escapes any
  character, a newline too. The result is the description and the text after the
  closing quote.
\<close>

fun match_desc :: "string \<Rightarrow> (string \<times> string) option" where
  "match_desc [] = None"
| "match_desc [c] = (if c = dquote then Some ([], []) else None)"
| "match_desc (c # d # ds) =
     (if c = dquote then Some ([], d # ds)
      else if c = bsl then map_option (\<lambda>(desc, r). (c # d # desc, r)) (match_desc ds)
      else map_option (\<lambda>(desc, r). (c # desc, r)) (match_desc (d # ds)))"

text \<open>
  \<^verbatim>\<open>declare_lint_re\<close> at the start of the text: the groups \<^verbatim>\<open>name\<close>, \<^verbatim>\<open>level\<close>
  and \<^verbatim>\<open>desc\<close>, and the text after the match.
\<close>

definition match_declare_lint :: "string \<Rightarrow> ((string \<times> string \<times> string) \<times> string) option" where
  "match_declare_lint s =
     do {
       s1 \<leftarrow> match_lit ''declare_lint!'' s;
       s2 \<leftarrow> match_char_ws (\<lambda>c. c = CHR ''{'' \<or> c = CHR ''('') (skip_ws s1);
       s3 \<leftarrow> match_lit ''pub'' s2;
       s4 \<leftarrow> match_char_ws is_space s3;
       name \<leftarrow> (if takeWhile is_name_char s4 = [] then None
                else Some (takeWhile is_name_char s4));
       s5 \<leftarrow> match_comma (dropWhile is_name_char s4);
       (level, s6) \<leftarrow> match_level s5;
       s7 \<leftarrow> match_comma s6;
       s8 \<leftarrow> match_char (\<lambda>c. c = dquote) s7;
       (desc, s9) \<leftarrow> match_desc s8;
       s10 \<leftarrow> match_char (\<lambda>c. c = CHR ''}'' \<or> c = CHR '')'') (skip_ws s9);
       Some ((name, level, desc), s10)
     }"

lemma match_lit_length:
  "match_lit p s = Some r \<Longrightarrow> length s = length p + length r"
  by (induction p s rule: match_lit.induct) (auto split: if_splits)

lemma skip_ws_length: "length (skip_ws s) \<le> length s"
  by (simp add: skip_ws_def length_dropWhile_le)

lemma match_char_length: "match_char cls s = Some r \<Longrightarrow> length s = Suc (length r)"
  by (auto simp: match_char_def split: list.splits if_splits)

lemma match_char_ws_length: "match_char_ws cls s = Some r \<Longrightarrow> length r < length s"
  using skip_ws_length by (fastforce simp: match_char_ws_def dest: match_char_length intro: le_imp_less_Suc)

lemma match_comma_length: "match_comma s = Some r \<Longrightarrow> length r < length s"
  unfolding match_comma_def using skip_ws_length [of s] by (fastforce dest: match_char_ws_length)

lemma match_level_length: "match_level s = Some (l, r) \<Longrightarrow> length r < length s"
  by (auto simp: match_level_def split: option.splits dest: match_lit_length)

lemma match_desc_length: "match_desc s = Some (d, r) \<Longrightarrow> length r < length s"
  by (induction s arbitrary: d r rule: match_desc.induct) (fastforce split: if_splits)+

lemma match_declare_lint_length:
  assumes "match_declare_lint s = Some (g, r)"
  shows "length r < length s"
proof -
  from assms obtain s1 where s1: "match_lit ''declare_lint!'' s = Some s1"
    by (auto simp: match_declare_lint_def split: Option.bind_splits)
  from assms s1 obtain s2 where s2: "match_char_ws (\<lambda>c. c = CHR ''{'' \<or> c = CHR ''('') (skip_ws s1) = Some s2"
    by (auto simp: match_declare_lint_def split: Option.bind_splits)
  from assms s1 s2 obtain s3 where s3: "match_lit ''pub'' s2 = Some s3"
    by (auto simp: match_declare_lint_def split: Option.bind_splits)
  from assms s1 s2 s3 obtain s4 where s4: "match_char_ws is_space s3 = Some s4"
    by (auto simp: match_declare_lint_def split: Option.bind_splits)
  from assms s1 s2 s3 s4 obtain s5 where s5: "match_comma (dropWhile is_name_char s4) = Some s5"
    by (auto simp: match_declare_lint_def split: Option.bind_splits if_splits)
  from assms s1 s2 s3 s4 s5 obtain l s6 where s6: "match_level s5 = Some (l, s6)"
    by (auto simp: match_declare_lint_def split: Option.bind_splits if_splits)
  from assms s1 s2 s3 s4 s5 s6 obtain s7 where s7: "match_comma s6 = Some s7"
    by (auto simp: match_declare_lint_def split: Option.bind_splits if_splits)
  from assms s1 s2 s3 s4 s5 s6 s7 obtain s8 where s8: "match_char (\<lambda>c. c = dquote) s7 = Some s8"
    by (auto simp: match_declare_lint_def split: Option.bind_splits if_splits)
  from assms s1 s2 s3 s4 s5 s6 s7 s8 obtain d s9 where s9: "match_desc s8 = Some (d, s9)"
    by (auto simp: match_declare_lint_def split: Option.bind_splits if_splits)
  from assms s1 s2 s3 s4 s5 s6 s7 s8 s9 have s10: "match_char (\<lambda>c. c = CHR ''}'' \<or> c = CHR '')'') (skip_ws s9) = Some r"
    by (auto simp: match_declare_lint_def split: Option.bind_splits if_splits)
  note match_lit_length [OF s1] skip_ws_length [of s1] match_char_ws_length [OF s2]
    match_lit_length [OF s3] match_char_ws_length [OF s4] length_dropWhile_le [of is_name_char s4]
    match_comma_length [OF s5] match_level_length [OF s6] match_comma_length [OF s7]
    match_char_length [OF s8] match_desc_length [OF s9] skip_ws_length [of s9] match_char_length [OF s10]
  then show ?thesis by linarith
qed

text \<open>
  \<^verbatim>\<open>declare_lint_re.finditer(code)\<close>: the matches from left to right, none overlapping
  another; the search goes on after the end of a match, or one character further when
  there is no match at a position. A match is never empty.
\<close>

function finditer :: "string \<Rightarrow> (string \<times> string \<times> string) list" where
  "finditer [] = []"
| "finditer (c # cs) =
     (case match_declare_lint (c # cs) of
        Some (g, rest) \<Rightarrow> g # finditer rest
      | None \<Rightarrow> finditer cs)"
  by pat_completeness auto
termination
  by (relation "measure length") (auto dest: match_declare_lint_length)


text \<open>\<^verbatim>\<open>nl_escape_re.sub('', desc)\<close> with \<^verbatim>\<open>nl_escape_re = \\\n\s*\<close>.\<close>

function nl_escape_sub :: "string \<Rightarrow> string" where
  "nl_escape_sub [] = []"
| "nl_escape_sub [c] = [c]"
| "nl_escape_sub (c # d # ds) =
     (if c = bsl \<and> d = nl then nl_escape_sub (skip_ws ds)
      else c # nl_escape_sub (d # ds))"
  by pat_completeness auto
termination
  by (relation "measure length") (auto simp: skip_ws_length le_imp_less_Suc less_Suc_eq_le le_SucI)

text \<open>\<^verbatim>\<open>desc.replace('\\"', '"')\<close>\<close>

fun replace_escaped_quote :: "string \<Rightarrow> string" where
  "replace_escaped_quote [] = []"
| "replace_escaped_quote [c] = [c]"
| "replace_escaped_quote (c # d # ds) =
     (if c = bsl \<and> d = dquote then dquote # replace_escaped_quote ds
      else c # replace_escaped_quote (d # ds))"

subsection \<open>Strings and paths\<close>

text \<open>\<^verbatim>\<open>str.lower\<close> and \<^verbatim>\<open>str.upper\<close> of a byte string change the ASCII letters only.\<close>

definition lower_char :: "char \<Rightarrow> char" where
  "lower_char c =
     (if CHR ''A'' \<le> c \<and> c \<le> CHR ''Z'' then char_of (of_char c + (32::nat)) else c)"

definition upper_char :: "char \<Rightarrow> char" where
  "upper_char c =
     (if CHR ''a'' \<le> c \<and> c \<le> CHR ''z'' then char_of (of_char c - (32::nat)) else c)"

definition lower :: "string \<Rightarrow> string" where
  "lower s = map lower_char s"

definition upper :: "string \<Rightarrow> string" where
  "upper s = map upper_char s"

definition startswith :: "string \<Rightarrow> string \<Rightarrow> bool" where
  "startswith s p \<longleftrightarrow> match_lit p s \<noteq> None"

definition endswith :: "string \<Rightarrow> string \<Rightarrow> bool" where
  "endswith s p \<longleftrightarrow> startswith (rev s) (rev p)"

text \<open>\<^verbatim>\<open>s.rfind(c)\<close>: the index of the last occurrence, or \<open>-1\<close>.\<close>

definition rfind :: "char \<Rightarrow> string \<Rightarrow> int" where
  "rfind c s =
     (if c \<in> set s then int (length s) - 1 - int (length (takeWhile (\<lambda>x. x \<noteq> c) (rev s)))
      else - 1)"

text \<open>\<^verbatim>\<open>os.path.basename(p)\<close>: what follows the last slash.\<close>

definition basename :: "string \<Rightarrow> string" where
  "basename p = drop (nat (rfind (CHR ''/'') p + 1)) p"

text \<open>
  \<^verbatim>\<open>os.path.splitext(p)[0]\<close>: the path up to the last dot of its last component, unless
  that component has only dots before it (a leading dot does not start an extension).
\<close>

definition splitext_root :: "string \<Rightarrow> string" where
  "splitext_root p =
     (let sepIndex = rfind (CHR ''/'') p; dotIndex = rfind (CHR ''.'') p in
      if dotIndex > sepIndex \<and>
         list_ex (\<lambda>c. c \<noteq> CHR ''.'')
           (take (nat dotIndex - nat (sepIndex + 1)) (drop (nat (sepIndex + 1)) p))
      then take (nat dotIndex) p
      else p)"

text \<open>\<^verbatim>\<open>'%d' % n\<close> for a length.\<close>

fun str_of_nat :: "nat \<Rightarrow> string" where
  "str_of_nat n =
     (if n < 10 then [char_of (48 + n)]
      else str_of_nat (n div 10) @ [char_of (48 + n mod 10)])"

declare str_of_nat.simps [simp del]

text \<open>\<^verbatim>\<open>'%-*s' % (w, s)\<close>: left-justified in a field of width \<open>w\<close>, never truncated.\<close>

definition ljust :: "nat \<Rightarrow> string \<Rightarrow> string" where
  "ljust w s = s @ replicate (w - length s) (CHR '' '')"

text \<open>\<^verbatim>\<open>max\<close> of a sequence raises \<^verbatim>\<open>ValueError\<close> when the sequence is empty.\<close>

fun py_max :: "nat list \<Rightarrow> py_error + nat" where
  "py_max [] = Inl ValueError"
| "py_max (x # xs) = Inr (fold max xs x)"

subsection \<open>\<^verbatim>\<open>collect\<close>\<close>

text \<open>A lint is the tuple \<^verbatim>\<open>(module, name, level, desc)\<close>.\<close>

type_synonym lint = "string \<times> string \<times> string \<times> string"

definition lint_of_match :: "string \<Rightarrow> string \<times> string \<times> string \<Rightarrow> lint" where
  "lint_of_match fn m =
     (case m of (name, level, desc) \<Rightarrow>
        (splitext_root (basename fn), lower name, lower level,
         replace_escaped_quote (nl_escape_sub desc)))"

definition collect :: "lint list \<Rightarrow> string \<Rightarrow> fs \<Rightarrow> py_error + lint list" where
  "collect lints fn files =
     (case read_file files fn of
        Inl e \<Rightarrow> Inl e
      | Inr code \<Rightarrow> Inr (fold (\<lambda>m acc. acc @ [lint_of_match fn m]) (finditer code) lints))"

subsection \<open>\<^verbatim>\<open>gen_table\<close> and \<^verbatim>\<open>gen_group\<close>\<close>

text \<open>
  Both are generators. \<^verbatim>\<open>gen_table\<close> can raise only before its first \<^verbatim>\<open>yield\<close>, so
  what a consumer gets is the exception or all the lines.
\<close>

definition gen_table :: "lint list \<Rightarrow> py_error + string list" where
  "gen_table lints =
     (case py_max (map (\<lambda>l. length (fst (snd l))) lints) of
        Inl e \<Rightarrow> Inl e
      | Inr w_name \<Rightarrow>
          (case py_max (map (\<lambda>l. length (snd (snd (snd l)))) lints) of
             Inl e \<Rightarrow> Inl e
           | Inr w_desc \<Rightarrow>
               Inr ([ljust w_name ''name'' @ '' | default | meaning'' @ [nl],
                     replicate w_name (CHR ''-'') @ ''-|-'' @ replicate 7 (CHR ''-'') @ ''-|-'' @
                       replicate w_desc (CHR ''-'') @ [nl]] @
                    map (\<lambda>(_, name, default, meaning).
                           ljust w_name name @ '' | '' @ ljust 7 default @ '' | '' @ meaning @ [nl])
                      (sort_key (\<lambda>l. fst (snd l)) lints))))"

definition gen_group :: "lint list \<Rightarrow> string list" where
  "gen_group lints =
     map (\<lambda>(module, name, _, _). ''        '' @ module @ ''::'' @ upper name @ '','' @ [nl])
       (sort_key (\<lambda>l. l) lints)"

subsection \<open>\<^verbatim>\<open>main\<close>\<close>

text \<open>The patterns that \<^verbatim>\<open>main\<close> passes to \<^verbatim>\<open>replace_region\<close>.\<close>

text \<open>\<^verbatim>\<open>^name +\|\<close>\<close>

definition table_start :: "string \<Rightarrow> bool" where
  "table_start line =
     (case match_lit ''name'' line of
        None \<Rightarrow> False
      | Some r \<Rightarrow>
          takeWhile (\<lambda>c. c = CHR '' '') r \<noteq> [] \<and>
          match_char (\<lambda>c. c = CHR ''|'') (dropWhile (\<lambda>c. c = CHR '' '') r) \<noteq> None)"

text \<open>\<^verbatim>\<open>^$\<close>: the empty string, or a lone newline (\<^verbatim>\<open>$\<close> also matches before a final newline).\<close>

definition table_end :: "string \<Rightarrow> bool" where
  "table_end line \<longleftrightarrow> line = [] \<or> line = [nl]"

text \<open>\<^verbatim>\<open>^There are \d+ lints included in this crate:\<close>\<close>

definition count_start :: "string \<Rightarrow> bool" where
  "count_start line =
     (case match_lit ''There are '' line of
        None \<Rightarrow> False
      | Some r \<Rightarrow>
          takeWhile is_digit r \<noteq> [] \<and>
          match_lit '' lints included in this crate:'' (dropWhile is_digit r) \<noteq> None)"

text \<open>The empty pattern matches every line.\<close>

definition count_end :: "string \<Rightarrow> bool" where
  "count_end line \<longleftrightarrow> True"

text \<open>\<^verbatim>\<open>reg.register_lint_group\("clippy"\<close>, where the dot is any character but a newline.\<close>

definition group_start :: "string \<Rightarrow> bool" where
  "group_start line =
     re_search (\<lambda>t.
       (case match_lit ''reg'' t of
          None \<Rightarrow> False
        | Some r \<Rightarrow>
            (case match_char (\<lambda>c. c \<noteq> nl) r of
               None \<Rightarrow> False
             | Some r' \<Rightarrow>
                 match_lit (''register_lint_group('' @ [dquote] @ ''clippy'' @ [dquote]) r' \<noteq> None)))
       line"

text \<open>\<^verbatim>\<open>\]\);\<close>\<close>

definition group_end :: "string \<Rightarrow> bool" where
  "group_end line = re_search (\<lambda>t. match_lit '']);'' t \<noteq> None) line"

text \<open>
  \<^verbatim>\<open>os.walk('src')\<close> with the filter on \<^verbatim>\<open>.rs\<close>: the paths below \<^verbatim>\<open>src\<close> in the order of
  the listing, which stands for the order in which the platform lists the files.
\<close>

definition isfile :: "fs \<Rightarrow> string \<Rightarrow> bool" where
  "isfile files p \<longleftrightarrow> map_of files p \<noteq> None"

definition walk_rs :: "fs \<Rightarrow> string list" where
  "walk_rs files =
     filter (\<lambda>p. startswith p ''src/'' \<and> endswith (basename p) ''.rs'') (map fst files)"

fun collect_all :: "lint list \<Rightarrow> string list \<Rightarrow> fs \<Rightarrow> py_error + lint list" where
  "collect_all lints [] files = Inr lints"
| "collect_all lints (fn # fns) files =
     (case collect lints fn files of
        Inl e \<Rightarrow> Inl e
      | Inr lints' \<Rightarrow> collect_all lints' fns files)"

text \<open>
  The three calls of \<^verbatim>\<open>replace_region\<close> in \<^verbatim>\<open>main\<close> with the flag \<^verbatim>\<open>changed\<close> that
  they accumulate. The callbacks are closures over \<^verbatim>\<open>lints\<close> with no state.
\<close>

definition count_line :: "lint list \<Rightarrow> string" where
  "count_line lints =
     ''There are '' @ str_of_nat (length lints) @ '' lints included in this crate:'' @ [nl]"

definition replace_regions :: "lint list \<Rightarrow> bool \<Rightarrow> fs \<Rightarrow> (py_error + bool) \<times> fs" where
  "replace_regions lints check files =
     (case replace_region ''README.md'' table_start table_end
             (\<lambda>u::unit. (gen_table lints, u)) True (\<not> check) files () of
        (Inl e, files1, _) \<Rightarrow> (Inl e, files1)
      | (Inr changed1, files1, _) \<Rightarrow>
     (case replace_region ''README.md'' count_start count_end
             (\<lambda>u::unit. (Inr [count_line lints], u)) True (\<not> check) files1 () of
        (Inl e, files2, _) \<Rightarrow> (Inl e, files2)
      | (Inr changed2, files2, _) \<Rightarrow>
     (case replace_region ''src/lib.rs'' group_start group_end
             (\<lambda>u::unit. (Inr (gen_group lints), u)) False (\<not> check) files2 () of
        (Inl e, files3, _) \<Rightarrow> (Inl e, files3)
      | (Inr changed3, files3, _) \<Rightarrow> (Inr ((changed1 \<or> changed2) \<or> changed3), files3))))"

text \<open>
  The world of \<^verbatim>\<open>main\<close>: the files and what has been written to standard output.
  \<^verbatim>\<open>main\<close> returns \<^verbatim>\<open>None\<close> or \<^verbatim>\<open>1\<close>, or raises.
\<close>

record world =
  disk :: fs
  stdout :: string

definition print :: "string \<Rightarrow> world \<Rightarrow> world" where
  "print s w = w\<lparr>stdout := stdout w @ s @ [nl]\<rparr>"

definition main :: "bool \<Rightarrow> bool \<Rightarrow> world \<Rightarrow> (py_error + int option) \<times> world" where
  "main print_only check w =
     (if \<not> isfile (disk w) ''src/lib.rs'' then
        (Inr None, print ''Error: call this script from clippy checkout directory!'' w)
      else
        (case collect_all [] (walk_rs (disk w)) (disk w) of
           Inl e \<Rightarrow> (Inl e, w)
         | Inr lints \<Rightarrow>
             if print_only then
               (case gen_table lints of
                  Inl e \<Rightarrow> (Inl e, w)
                | Inr ls \<Rightarrow> (Inr None, w\<lparr>stdout := stdout w @ concat ls\<rparr>))
             else
               (case replace_regions lints check (disk w) of
                  (Inl e, files') \<Rightarrow> (Inl e, w\<lparr>disk := files'\<rparr>)
                | (Inr changed, files') \<Rightarrow>
                    if check \<and> changed then
                      (Inr (Some 1),
                       print ''Please run util/update_lints.py to regenerate lints lists.''
                         (w\<lparr>disk := files'\<rparr>))
                    else (Inr None, w\<lparr>disk := files'\<rparr>))))"

text \<open>
  \<^verbatim>\<open>sys.exit(main(...))\<close>: the exit status of the process. \<^verbatim>\<open>sys.exit(None)\<close> is status
  0, an uncaught exception ends the interpreter with status 1.
\<close>

definition exit_status :: "py_error + int option \<Rightarrow> int" where
  "exit_status r = (case r of Inl e \<Rightarrow> 1 | Inr None \<Rightarrow> 0 | Inr (Some n) \<Rightarrow> n)"

definition script :: "string list \<Rightarrow> world \<Rightarrow> int \<times> world" where
  "script argv w =
     (case main (''-n'' \<in> set argv) (''-c'' \<in> set argv) w of (r, w') \<Rightarrow> (exit_status r, w'))"

subsection \<open>Example trees\<close>

text \<open>A tree with one lint and a table in \<^verbatim>\<open>README.md\<close> that is out of date.\<close>

definition tree1 :: fs where
  "tree1 =
     [(''src/lib.rs'', []),
      (''src/a.rs'', ''declare_lint!(pub A,Warn,'' @ [dquote] @ ''x'' @ [dquote] @ '')''),
      (''README.md'', ''name |\<newline>\<newline>'')]"

text \<open>The declaration \<^verbatim>\<open>declare_lint!(pub FOO_BAR, Warn, "does a thing\"s")\<close>.\<close>

definition foo_bar_decl :: string where
  "foo_bar_decl =
     ''declare_lint!(pub FOO_BAR, Warn, '' @ [dquote] @ ''does a thing'' @ [bsl, dquote] @
     ''s'' @ [dquote] @ '')''"

text \<open>
  A tree whose only lint has a description of two lines, and the same tree after the
  script has run in write mode.
\<close>

definition tree2 :: fs where
  "tree2 =
     [(''src/lib.rs'', []),
      (''src/a.rs'',
       ''declare_lint!(pub A,Warn,'' @ [dquote] @ ''x\<newline>y'' @ [dquote] @ '')''),
      (''README.md'', ''name |\<newline>\<newline>'')]"

definition tree2_written :: fs where
  "tree2_written =
     [(''src/lib.rs'', []),
      (''src/a.rs'',
       ''declare_lint!(pub A,Warn,'' @ [dquote] @ ''x\<newline>y'' @ [dquote] @ '')''),
      (''README.md'',
       ''name | default | meaning\<newline>--|---------|----\<newline>a | warn    | x\<newline>y\<newline>\<newline>'')]"

text \<open>The tree \<open>tree1\<close> after the script has run in write mode.\<close>

definition tree1_written :: fs where
  "tree1_written =
     [(''src/lib.rs'', []),
      (''src/a.rs'', ''declare_lint!(pub A,Warn,'' @ [dquote] @ ''x'' @ [dquote] @ '')''),
      (''README.md'',
       ''name | default | meaning\<newline>--|---------|--\<newline>a | warn    | x\<newline>\<newline>'')]"

text \<open>A tree with a source file whose name holds the end pattern of the lint group.\<close>

definition tree3 :: fs where
  "tree3 =
     [(''src/lib.rs'',
       ''reg.register_lint_group('' @ [dquote] @ ''clippy'' @ [dquote] @ ''\<newline>]);\<newline>''),
      (''src/]);.rs'', ''declare_lint!(pub A,Warn,'' @ [dquote] @ ''x'' @ [dquote] @ '')''),
      (''README.md'', [])]"

text \<open>The tree \<open>tree3\<close> after the script has run in write mode.\<close>

definition tree3_written :: fs where
  "tree3_written =
     [(''src/lib.rs'',
       ''reg.register_lint_group('' @ [dquote] @ ''clippy'' @ [dquote] @
       ''\<newline>        ]);::A,\<newline>]);\<newline>''),
      (''src/]);.rs'', ''declare_lint!(pub A,Warn,'' @ [dquote] @ ''x'' @ [dquote] @ '')''),
      (''README.md'', [])]"

text \<open>A tree that declares its only lint inside the lint group of \<^verbatim>\<open>src/lib.rs\<close>.\<close>

definition tree4 :: fs where
  "tree4 =
     [(''src/lib.rs'',
       ''reg.register_lint_group('' @ [dquote] @ ''clippy'' @ [dquote] @ ''\<newline>'' @
       ''declare_lint!(pub B,Warn,'' @ [dquote] @ ''y'' @ [dquote] @ '')\<newline>]);\<newline>''),
      (''README.md'', ''name |\<newline>\<newline>'')]"

subsection \<open>Reference definitions\<close>

text \<open>
  Padding on the left, the reading of ``left-padded to width \<open>w\<close>'': spaces first, then
  the text. The script does not use it; it is here to be compared with \<open>ljust\<close>.
\<close>

definition left_padded :: "nat \<Rightarrow> string \<Rightarrow> string" where
  "left_padded w s = replicate (w - length s) (CHR '' '') @ s"

subsection \<open>Scans with a constant callback\<close>

text \<open>
  The scan with a callback that has no state and always returns the same result \<open>g\<close>,
  written without the accumulator: what is appended to \<^verbatim>\<open>new_lines\<close> from a given line
  on.
\<close>

fun splice_lines ::
  "(string \<Rightarrow> bool) \<Rightarrow> (string \<Rightarrow> bool) \<Rightarrow> py_error + string list \<Rightarrow> bool \<Rightarrow>
   string list \<Rightarrow> bool \<Rightarrow> py_error + string list" where
  "splice_lines region_start region_end g replace_start [] in_old_region = Inr []"
| "splice_lines region_start region_end g replace_start (line # lines) in_old_region =
     (if in_old_region then
        (if region_end line then
           (case g of
              Inl e \<Rightarrow> Inl e
            | Inr gl \<Rightarrow>
                (case splice_lines region_start region_end g replace_start lines False of
                   Inl e \<Rightarrow> Inl e
                 | Inr r \<Rightarrow> Inr (gl @ line # r)))
         else splice_lines region_start region_end g replace_start lines True)
      else if region_start line then
        (case splice_lines region_start region_end g replace_start lines True of
           Inl e \<Rightarrow> Inl e
         | Inr r \<Rightarrow> Inr (if replace_start then r else line # r))
      else
        (case splice_lines region_start region_end g replace_start lines False of
           Inl e \<Rightarrow> Inl e
         | Inr r \<Rightarrow> Inr (line # r)))"

text \<open>
  Lines as a file holds them: a complete line ends with its only newline; the last line
  of a file may be a non-empty text without a newline.
\<close>

definition complete_line :: "string \<Rightarrow> bool" where
  "complete_line l \<longleftrightarrow> l \<noteq> [] \<and> last l = nl \<and> nl \<notin> set (butlast l)"

fun file_like :: "string list \<Rightarrow> bool" where
  "file_like [] = True"
| "file_like [l] = (complete_line l \<or> (l \<noteq> [] \<and> nl \<notin> set l))"
| "file_like (l # ls) = (complete_line l \<and> file_like ls)"

text \<open>
  The lines that a scan leaves alone: lines that do not open a region, and regions that
  hold exactly the generated lines \<open>gl\<close> (after the start line when that is kept,
  beginning with it when it is replaced); when the start line is kept, also a start line
  at the very end.
\<close>

inductive settled ::
  "(string \<Rightarrow> bool) \<Rightarrow> (string \<Rightarrow> bool) \<Rightarrow> py_error + string list \<Rightarrow> bool \<Rightarrow>
   string list \<Rightarrow> bool"
  for region_start region_end g replace_start where
  settled_Nil: "settled region_start region_end g replace_start []"
| settled_keep:
    "\<not> region_start l \<Longrightarrow> settled region_start region_end g replace_start r \<Longrightarrow>
     settled region_start region_end g replace_start (l # r)"
| settled_region:
    "g = Inr gl \<Longrightarrow> region_end e \<Longrightarrow> settled region_start region_end g replace_start r \<Longrightarrow>
     replace_start \<Longrightarrow>
     settled region_start region_end g replace_start (gl @ e # r)"
| settled_kept_region:
    "g = Inr gl \<Longrightarrow> region_start s \<Longrightarrow> region_end e \<Longrightarrow>
     settled region_start region_end g replace_start r \<Longrightarrow> \<not> replace_start \<Longrightarrow>
     settled region_start region_end g replace_start (s # gl @ e # r)"
| settled_open:
    "region_start s \<Longrightarrow> \<not> replace_start \<Longrightarrow>
     settled region_start region_end g replace_start [s]"

section \<open>Properties of \<^verbatim>\<open>replace_region\<close>\<close>

lemma scan_lines_outside:
  "\<forall>l\<in>set pre. \<not> region_start l \<Longrightarrow>
   scan_lines region_start region_end cb rs (pre @ rest) acc False s =
   scan_lines region_start region_end cb rs rest (acc @ pre) False s"
  by (induction pre arbitrary: acc) simp_all

lemma scan_lines_inside:
  "\<forall>l\<in>set mid. \<not> region_end l \<Longrightarrow>
   scan_lines region_start region_end cb rs (mid @ rest) acc True s =
   scan_lines region_start region_end cb rs rest acc True s"
  by (induction mid arbitrary: acc) simp_all

lemma scan_lines_acc:
  "scan_lines region_start region_end cb rs ls (acc @ new) io s =
   (case scan_lines region_start region_end cb rs ls new io s of
      (Inl e, s') \<Rightarrow> (Inl e, s')
    | (Inr r, s') \<Rightarrow> (Inr (acc @ r), s'))"
proof (induction ls arbitrary: new io s)
  case Nil
  show ?case by simp
next
  case (Cons l ls)
  show ?case
  proof (cases "cb s")
    case (Pair res s')
    then show ?thesis
      using Cons.IH by (cases res; cases rs) simp_all
  qed
qed

lemma scan_lines_region:
  assumes "\<forall>l\<in>set pre. \<not> region_start l" and "region_start s"
    and "\<forall>l\<in>set mid. \<not> region_end l" and "region_end e"
    and "cb st = (Inr g, st')"
  shows "scan_lines region_start region_end cb rs (pre @ [s] @ mid @ [e] @ post) [] False st =
    (case scan_lines region_start region_end cb rs post [] False st' of
       (Inl err, t) \<Rightarrow> (Inl err, t)
     | (Inr r, t) \<Rightarrow> (Inr (pre @ (if rs then [] else [s]) @ g @ [e] @ r), t))"
proof -
  let ?new = "pre @ (if rs then [] else [s]) @ g @ [e]"
  have "scan_lines region_start region_end cb rs (pre @ [s] @ mid @ [e] @ post) [] False st =
        scan_lines region_start region_end cb rs ([s] @ mid @ [e] @ post) pre False st"
    using scan_lines_outside [OF assms(1), of region_end cb rs _ "[]"] by simp
  also have "\<dots> = scan_lines region_start region_end cb rs (mid @ [e] @ post)
                    (pre @ (if rs then [] else [s])) True st"
    using assms(2) by simp
  also have "\<dots> = scan_lines region_start region_end cb rs ([e] @ post)
                    (pre @ (if rs then [] else [s])) True st"
    by (rule scan_lines_inside [OF assms(3)])
  also have "\<dots> = scan_lines region_start region_end cb rs post (?new @ []) False st'"
    using assms(4,5) by simp
  also have "\<dots> = (case scan_lines region_start region_end cb rs post [] False st' of
       (Inl err, t) \<Rightarrow> (Inl err, t) | (Inr r, t) \<Rightarrow> (Inr (?new @ r), t))"
    by (rule scan_lines_acc)
  finally show ?thesis by (simp split: prod.splits sum.splits)
qed

lemma scan_lines_no_start:
  "\<forall>l\<in>set post. \<not> region_start l \<Longrightarrow>
   scan_lines region_start region_end cb rs post [] False st = (Inr post, st)"
  using scan_lines_outside [of post region_start region_end cb rs "[]" "[]" st] by simp

lemma scan_lines_open:
  assumes "\<forall>l\<in>set pre. \<not> region_start l" and "region_start s"
    and "\<forall>l\<in>set rest. \<not> region_end l"
  shows "scan_lines region_start region_end cb rs (pre @ [s] @ rest) [] False st =
    (Inr (pre @ (if rs then [] else [s])), st)"
proof -
  have "scan_lines region_start region_end cb rs (pre @ [s] @ rest) [] False st =
        scan_lines region_start region_end cb rs ([s] @ rest) pre False st"
    using scan_lines_outside [OF assms(1), of region_end cb rs _ "[]"] by simp
  also have "\<dots> = scan_lines region_start region_end cb rs (rest @ [])
                    (pre @ (if rs then [] else [s])) True st"
    using assms(2) by simp
  also have "\<dots> = scan_lines region_start region_end cb rs []
                    (pre @ (if rs then [] else [s])) True st"
    by (rule scan_lines_inside [OF assms(3)])
  finally show ?thesis by simp
qed

text \<open>
  C1. Let the file's lines be \<open>pre @ [s] @ mid @ [e] @ post\<close>, where \<open>s\<close> is the first line
  that matches the start pattern and \<open>e\<close> the first line after it that matches the end
  pattern, and let the callback return the lines \<open>g\<close>. Then the new lines are \<open>pre\<close>, the
  start line \<open>s\<close> exactly when \<open>replace_start\<close> is false, \<open>g\<close>, the end line \<open>e\<close> itself,
  and then what the same scan makes of \<open>post\<close>, which is \<open>post\<close> unchanged when none of
  its lines opens a region again. Whenever \<open>replace_region\<close> returns, it returns whether
  the new line list differs from the original one, and it has written the new lines
  exactly when \<open>write_back\<close> is set.
\<close>

theorem replace_region_splices:
  assumes "read_file files fn = Inr content"
    and "file_lines content = pre @ [s] @ mid @ [e] @ post"
    and "\<forall>l\<in>set pre. \<not> region_start l" and "region_start s"
    and "\<forall>l\<in>set mid. \<not> region_end l" and "region_end e"
    and "cb st = (Inr g, st')"
  shows "scan_lines region_start region_end cb rs (file_lines content) [] False st =
      (case scan_lines region_start region_end cb rs post [] False st' of
         (Inl err, t) \<Rightarrow> (Inl err, t)
       | (Inr r, t) \<Rightarrow> (Inr (pre @ (if rs then [] else [s]) @ g @ [e] @ r), t))
    \<and> ((\<forall>l\<in>set post. \<not> region_start l) \<longrightarrow>
        replace_region fn region_start region_end cb rs wb files st =
          (Inr (file_lines content \<noteq> pre @ (if rs then [] else [s]) @ g @ [e] @ post),
           if wb then write_lines fn (pre @ (if rs then [] else [s]) @ g @ [e] @ post) files
           else files,
           st'))
    \<and> (replace_region fn region_start region_end cb rs wb files st = (Inr changed, files', t) \<longrightarrow>
        (\<exists>new_lines.
           scan_lines region_start region_end cb rs (file_lines content) [] False st =
             (Inr new_lines, t) \<and>
           changed = (file_lines content \<noteq> new_lines) \<and>
           files' = (if wb then write_lines fn new_lines files else files)))"
proof (intro conjI impI)
  show first: "scan_lines region_start region_end cb rs (file_lines content) [] False st =
      (case scan_lines region_start region_end cb rs post [] False st' of
         (Inl err, t) \<Rightarrow> (Inl err, t)
       | (Inr r, t) \<Rightarrow> (Inr (pre @ (if rs then [] else [s]) @ g @ [e] @ r), t))"
    unfolding assms(2) using assms(3-7) by (rule scan_lines_region)
  {
    assume "\<forall>l\<in>set post. \<not> region_start l"
    then have "scan_lines region_start region_end cb rs post [] False st' = (Inr post, st')"
      by (rule scan_lines_no_start)
    with first have "scan_lines region_start region_end cb rs (file_lines content) [] False st =
        (Inr (pre @ (if rs then [] else [s]) @ g @ [e] @ post), st')"
      by simp
    then show "replace_region fn region_start region_end cb rs wb files st =
        (Inr (file_lines content \<noteq> pre @ (if rs then [] else [s]) @ g @ [e] @ post),
         if wb then write_lines fn (pre @ (if rs then [] else [s]) @ g @ [e] @ post) files
         else files,
         st')"
      using assms(1) by (simp add: replace_region_def Let_def)
  }
  {
    assume "replace_region fn region_start region_end cb rs wb files st = (Inr changed, files', t)"
    then show "\<exists>new_lines.
           scan_lines region_start region_end cb rs (file_lines content) [] False st =
             (Inr new_lines, t) \<and>
           changed = (file_lines content \<noteq> new_lines) \<and>
           files' = (if wb then write_lines fn new_lines files else files)"
      using assms(1)
      by (auto simp: replace_region_def Let_def split: sum.splits prod.splits)
  }
qed

theorem replace_region_splices_witness:
  "read_file [(''f'', ''a\<newline>S\<newline>x\<newline>E\<newline>b\<newline>'')] ''f'' = Inr ''a\<newline>S\<newline>x\<newline>E\<newline>b\<newline>''
   \<and> file_lines ''a\<newline>S\<newline>x\<newline>E\<newline>b\<newline>'' = [''a\<newline>''] @ [''S\<newline>''] @ [''x\<newline>''] @ [''E\<newline>''] @ [''b\<newline>'']
   \<and> replace_region ''f'' (\<lambda>l. l = ''S\<newline>'') (\<lambda>l. l = ''E\<newline>'')
        (\<lambda>n::nat. (Inr [''g\<newline>''], Suc n)) True True
        [(''f'', ''a\<newline>S\<newline>x\<newline>E\<newline>b\<newline>'')] 0 =
      (Inr True, [(''f'', ''a\<newline>g\<newline>E\<newline>b\<newline>'')], 1)"
proof -
  have rd: "read_file [(''f'', ''a\<newline>S\<newline>x\<newline>E\<newline>b\<newline>'')] ''f'' = Inr ''a\<newline>S\<newline>x\<newline>E\<newline>b\<newline>''"
    by (simp add: read_file_def)
  have fl: "file_lines ''a\<newline>S\<newline>x\<newline>E\<newline>b\<newline>'' = [''a\<newline>''] @ [''S\<newline>''] @ [''x\<newline>''] @ [''E\<newline>''] @ [''b\<newline>'']"
    by (simp add: nl_def)
  show ?thesis
    using rd fl
      replace_region_splices [OF rd fl, where region_start = "\<lambda>l. l = ''S\<newline>''"
        and region_end = "\<lambda>l. l = ''E\<newline>''" and rs = True and wb = True
        and cb = "\<lambda>n::nat. (Inr [''g\<newline>''], Suc n)" and st = 0
        and g = "[''g\<newline>'']" and st' = 1, THEN conjunct2, THEN conjunct1]
    by (simp add: write_lines_def)
qed

text \<open>
  C2. When the first line that matches the start pattern is followed by no line that
  matches the end pattern, the new lines are the lines before the start line (and the
  start line itself when \<open>replace_start\<close> is false): everything after it is dropped. The
  callback's state comes back as it went in, whatever the callback is, so the callback
  is not invoked and no replacement content is inserted.
\<close>

theorem replace_region_unterminated:
  assumes "read_file files fn = Inr content"
    and "file_lines content = pre @ [s] @ rest"
    and "\<forall>l\<in>set pre. \<not> region_start l" and "region_start s"
    and "\<forall>l\<in>set rest. \<not> region_end l"
  shows "replace_region fn region_start region_end cb rs wb files st =
      (Inr (file_lines content \<noteq> pre @ (if rs then [] else [s])),
       if wb then write_lines fn (pre @ (if rs then [] else [s])) files else files,
       st)"
proof -
  have "scan_lines region_start region_end cb rs (file_lines content) [] False st =
      (Inr (pre @ (if rs then [] else [s])), st)"
    unfolding assms(2) using assms(3-5) by (rule scan_lines_open)
  then show ?thesis
    using assms(1) by (simp add: replace_region_def Let_def)
qed

theorem replace_region_unterminated_witness:
  "read_file [(''f'', ''a\<newline>S\<newline>x\<newline>b\<newline>'')] ''f'' = Inr ''a\<newline>S\<newline>x\<newline>b\<newline>''
   \<and> file_lines ''a\<newline>S\<newline>x\<newline>b\<newline>'' = [''a\<newline>''] @ [''S\<newline>''] @ [''x\<newline>'', ''b\<newline>'']
   \<and> replace_region ''f'' (\<lambda>l. l = ''S\<newline>'') (\<lambda>l. l = ''E\<newline>'')
        (\<lambda>n::nat. (Inr [''g\<newline>''], Suc n)) False True
        [(''f'', ''a\<newline>S\<newline>x\<newline>b\<newline>'')] 0 =
      (Inr True, [(''f'', ''a\<newline>S\<newline>'')], 0)"
proof -
  have rd: "read_file [(''f'', ''a\<newline>S\<newline>x\<newline>b\<newline>'')] ''f'' = Inr ''a\<newline>S\<newline>x\<newline>b\<newline>''"
    by (simp add: read_file_def)
  have fl: "file_lines ''a\<newline>S\<newline>x\<newline>b\<newline>'' = [''a\<newline>''] @ [''S\<newline>''] @ [''x\<newline>'', ''b\<newline>'']"
    by (simp add: nl_def)
  show ?thesis
    using rd fl
      replace_region_unterminated [OF rd fl, where region_start = "\<lambda>l. l = ''S\<newline>''"
        and region_end = "\<lambda>l. l = ''E\<newline>''" and rs = False and wb = True
        and cb = "\<lambda>n::nat. (Inr [''g\<newline>''], Suc n)" and st = 0]
    by (simp add: write_lines_def)
qed

lemma py_max_Cons: "xs \<noteq> [] \<Longrightarrow> py_max xs = Inr (Max (set xs))"
proof (cases xs)
  case Nil
  assume "xs \<noteq> []"
  with Nil show ?thesis by simp
next
  case (Cons a list)
  then show ?thesis using Max.set_eq_fold [of a list] by simp
qed

text \<open>
  C10. On the empty list \<^verbatim>\<open>gen_table\<close> raises \<^verbatim>\<open>ValueError\<close> (the \<^verbatim>\<open>max\<close> of an empty
  sequence) before it yields a line; it yields lines, and then at least one, exactly when
  the list of lints is not empty. \<^verbatim>\<open>gen_group\<close> yields no line for the empty list.
\<close>

theorem gen_table_partial:
  "gen_table [] = Inl ValueError
   \<and> ((\<exists>ls. gen_table lints = Inr ls \<and> ls \<noteq> []) \<longleftrightarrow> lints \<noteq> [])
   \<and> gen_group [] = []"
  by (cases lints) (simp_all add: gen_table_def gen_group_def)

theorem gen_table_partial_witness:
  "gen_table [(''m'', ''ab'', ''warn'', ''d'')] \<noteq> Inl ValueError"
  using gen_table_partial [of "[(''m'', ''ab'', ''warn'', ''d'')]"] by auto

text \<open>
  C6. \<^verbatim>\<open>gen_group\<close> yields one line for each lint, the lints in ascending order of the
  whole tuple \<^verbatim>\<open>(module, name, level, desc)\<close>; a line is eight spaces, the module,
  \<^verbatim>\<open>::\<close>, the name in upper case, a comma and the newline. The module is the primary
  key: of two lints the one with the smaller module comes first, whatever the names are.
\<close>

theorem gen_group_lines:
  "(\<exists>rs. mset rs = mset lints \<and> sorted rs \<and>
         gen_group lints =
           map (\<lambda>(module, name, level, desc).
                  ''        '' @ module @ ''::'' @ upper name @ '','' @ [nl]) rs)
   \<and> length (gen_group lints) = length lints
   \<and> (ma < mb \<longrightarrow>
        gen_group [(mb, nb, lb, db), (ma, na, la, da)] =
          [''        '' @ ma @ ''::'' @ upper na @ '','' @ [nl],
           ''        '' @ mb @ ''::'' @ upper nb @ '','' @ [nl]])"
proof (intro conjI impI)
  show "\<exists>rs. mset rs = mset lints \<and> sorted rs \<and>
         gen_group lints =
           map (\<lambda>(module, name, level, desc).
                  ''        '' @ module @ ''::'' @ upper name @ '','' @ [nl]) rs"
    by (rule exI [of _ "sort lints"]) (simp add: gen_group_def)
  show "length (gen_group lints) = length lints"
    by (simp add: gen_group_def)
  assume "ma < mb"
  then show "gen_group [(mb, nb, lb, db), (ma, na, la, da)] =
          [''        '' @ ma @ ''::'' @ upper na @ '','' @ [nl],
           ''        '' @ mb @ ''::'' @ upper nb @ '','' @ [nl]]"
    by (auto simp: gen_group_def)
qed

theorem gen_group_lines_witness:
  "''a'' < ''b'' \<and> ''a'' < ''z'' \<and>
   gen_group [(''b'', ''a'', ''warn'', []), (''a'', ''z'', ''warn'', [])] =
     [''        a::Z,\<newline>'', ''        b::A,\<newline>'']"
proof -
  have lt: "''a'' < ''b''" "''a'' < ''z''" by simp_all
  have up: "upper ''z'' = ''Z''" "upper ''a'' = ''A''" by code_simp+
  show ?thesis
    using lt up
      gen_group_lines [of "[]" "''a''" "''b''" "''a''" "''warn''" "[]" "''z''" "''warn''" "[]"]
    by (simp add: nl_def)
qed

text \<open>
  C5, as amended. For a list of lints that is not empty, \<^verbatim>\<open>gen_table\<close> yields the header,
  the underline and one row for each lint, the lints in ascending order of the name
  (lints of the same name in the order of the list). The columns are padded on the
  right: the header is \<^verbatim>\<open>name\<close>, then spaces up to the longest name, then
  \<^verbatim>\<open> | default | meaning\<close>; the underline has as many dashes as the longest name, 7
  dashes, and as many as the longest description, joined by \<^verbatim>\<open>-|-\<close>; a row is the
  name, then spaces up to the longest name, \<^verbatim>\<open> | \<close>, the level, then spaces up to width
  7, \<^verbatim>\<open> | \<close> and the description.
\<close>

theorem gen_table_lines:
  assumes "lints \<noteq> []"
  shows "\<exists>rows.
      mset rows = mset lints \<and> sorted (map (\<lambda>l. fst (snd l)) rows) \<and>
      rows = sort_key (\<lambda>l. fst (snd l)) lints \<and>
      (let w_name = Max (set (map (\<lambda>l. length (fst (snd l))) lints));
           w_desc = Max (set (map (\<lambda>l. length (snd (snd (snd l)))) lints))
       in gen_table lints =
          Inr ((''name'' @ replicate (w_name - 4) (CHR '' '') @ '' | default | meaning'' @ [nl]) #
               (replicate w_name (CHR ''-'') @ ''-|-'' @ replicate 7 (CHR ''-'') @ ''-|-'' @
                  replicate w_desc (CHR ''-'') @ [nl]) #
               map (\<lambda>(module, name, level, desc).
                      name @ replicate (w_name - length name) (CHR '' '') @ '' | '' @
                      level @ replicate (7 - length level) (CHR '' '') @ '' | '' @ desc @ [nl])
                 rows))"
  using assms
  by (simp add: gen_table_def py_max_Cons ljust_def Let_def)

theorem gen_table_lines_witness:
  "[(''m'', ''ab'', ''warn'', ''d'')] \<noteq> [] \<and>
   gen_table [(''m'', ''ab'', ''warn'', ''d'')] =
     Inr [''name | default | meaning\<newline>'', ''---|---------|--\<newline>'', ''ab | warn    | d\<newline>'']"
  using gen_table_lines [of "[(''m'', ''ab'', ''warn'', ''d'')]"]
  by (simp add: nl_def numeral_eq_Suc)

text \<open>
  C5 as stated fails: with the columns padded on the left, the row of the lint \<^verbatim>\<open>ab\<close> at
  level \<^verbatim>\<open>warn\<close> would have the spaces before \<^verbatim>\<open>warn\<close>; \<^verbatim>\<open>gen_table\<close> puts them after.
\<close>

theorem gen_table_left_padded_counterexample:
  "gen_table [(''m'', ''ab'', ''warn'', ''d'')] \<noteq>
     Inr [left_padded 2 ''name'' @ '' | default | meaning'' @ [nl],
          replicate 2 (CHR ''-'') @ ''-|-'' @ replicate 7 (CHR ''-'') @ ''-|-'' @
            replicate 1 (CHR ''-'') @ [nl],
          left_padded 2 ''ab'' @ '' | '' @ left_padded 7 ''warn'' @ '' | '' @ ''d'' @ [nl]]"
  by code_simp


section \<open>Properties of the collector\<close>

lemma fold_snoc_map: "fold (\<lambda>m acc. acc @ [f m]) xs acc = acc @ map f xs"
  by (induction xs arbitrary: acc) simp_all

lemma collect_eq:
  "read_file files fn = Inr code \<Longrightarrow>
   collect lints fn files = Inr (lints @ map (lint_of_match fn) (finditer code))"
  by (simp add: collect_def fold_snoc_map)

lemma collect_all_eq:
  "\<forall>fn\<in>set fns. isfile files fn \<Longrightarrow>
   collect_all lints fns files =
     Inr (lints @ concat (map (\<lambda>fn. map (lint_of_match fn)
            (finditer (the (map_of files fn)))) fns))"
proof (induction fns arbitrary: lints)
  case Nil
  show ?case by simp
next
  case (Cons fn fns)
  from Cons.prems obtain code where code: "map_of files fn = Some code"
    by (auto simp: isfile_def)
  then have "read_file files fn = Inr code"
    by (simp add: read_file_def)
  then have "collect lints fn files = Inr (lints @ map (lint_of_match fn) (finditer code))"
    by (rule collect_eq)
  with Cons code show ?case by simp
qed

lemma walk_rs_isfile: "\<forall>fn\<in>set (walk_rs files). isfile files fn"
  by (auto simp: walk_rs_def isfile_def map_of_eq_None_iff image_iff)

lemma collect_all_walk:
  "collect_all [] (walk_rs files) files =
     Inr (concat (map (\<lambda>fn. map (lint_of_match fn) (finditer (the (map_of files fn))))
            (walk_rs files)))"
  using collect_all_eq [OF walk_rs_isfile, where lints = "[]"] by simp

lemma match_level_cases:
  "match_level s = Some (l, r) \<Longrightarrow> l \<in> {''Forbid'', ''Deny'', ''Warn'', ''Allow''}"
  by (auto simp: match_level_def split: option.splits)

lemma match_declare_lint_level:
  "match_declare_lint s = Some ((n, l, d), r) \<Longrightarrow>
   l \<in> {''Forbid'', ''Deny'', ''Warn'', ''Allow''}"
  by (auto simp: match_declare_lint_def split: Option.bind_splits if_splits
           dest!: match_level_cases)

lemma finditer_level:
  "(n, l, d) \<in> set (finditer s) \<Longrightarrow> l \<in> {''Forbid'', ''Deny'', ''Warn'', ''Allow''}"
proof (induction s rule: finditer.induct)
  case 1
  then show ?case by simp
next
  case (2 c cs)
  show ?case
  proof (cases "match_declare_lint (c # cs)")
    case None
    with 2 show ?thesis by simp
  next
    case (Some a)
    obtain n' l' d' rest where a: "a = ((n', l', d'), rest)" by (cases a) auto
    from Some a have "l' \<in> {''Forbid'', ''Deny'', ''Warn'', ''Allow''}"
      using match_declare_lint_level by blast
    with 2 Some a show ?thesis by auto
  qed
qed

lemma lower_levels:
  "lower ''Forbid'' = ''forbid''" "lower ''Deny'' = ''deny''"
  "lower ''Warn'' = ''warn''" "lower ''Allow'' = ''allow''"
  by code_simp+

lemma lint_of_match_level:
  assumes "m \<in> set (finditer code)" and "lint_of_match fn m = (module, name, level, desc)"
  shows "level \<in> {''forbid'', ''deny'', ''warn'', ''allow''}"
proof -
  obtain n l d where m: "m = (n, l, d)" by (cases m) auto
  with assms(1) have "l \<in> {''Forbid'', ''Deny'', ''Warn'', ''Allow''}"
    using finditer_level by blast
  moreover from assms(2) m have "level = lower l"
    by (simp add: lint_of_match_def)
  ultimately show ?thesis using lower_levels by auto
qed

text \<open>
  C9. Collecting over any tree of files succeeds, and every lint of the collection has as
  its level one of the four strings \<^verbatim>\<open>forbid\<close>, \<^verbatim>\<open>deny\<close>, \<^verbatim>\<open>warn\<close>, \<^verbatim>\<open>allow\<close>: the
  pattern admits only the four keywords, and \<^verbatim>\<open>lower\<close> maps them to these.
\<close>

theorem collect_levels:
  "\<exists>lints. collect_all [] (walk_rs files) files = Inr lints \<and>
     (\<forall>(module, name, level, desc) \<in> set lints.
        level \<in> {''forbid'', ''deny'', ''warn'', ''allow''})"
  unfolding collect_all_walk
  by (auto dest: lint_of_match_level)

theorem collect_levels_witness:
  "collect_all [] (walk_rs tree1) tree1 = Inr [(''a'', ''a'', ''warn'', ''x'')] \<and>
   ''warn'' \<in> {''forbid'', ''deny'', ''warn'', ''allow''}"
proof -
  have ev: "collect_all [] (walk_rs tree1) tree1 = Inr [(''a'', ''a'', ''warn'', ''x'')]"
    by code_simp
  from collect_levels [of tree1] ev show ?thesis by auto
qed


section \<open>Properties of \<^verbatim>\<open>main\<close>\<close>

text \<open>
  C8. When \<^verbatim>\<open>src/lib.rs\<close> is not a file of the current directory, \<^verbatim>\<open>main\<close> prints the
  error message and returns \<^verbatim>\<open>None\<close>, whatever the mode: the exit status of the script
  is 0 and no file is touched.
\<close>

theorem main_missing_marker:
  assumes "\<not> isfile (disk w) ''src/lib.rs''"
  shows "main print_only check w =
           (Inr None,
            w\<lparr>stdout := stdout w @
               ''Error: call this script from clippy checkout directory!'' @ [nl]\<rparr>)
         \<and> fst (script argv w) = 0
         \<and> disk (snd (script argv w)) = disk w"
  using assms by (simp add: main_def script_def print_def exit_status_def)

theorem main_missing_marker_witness:
  "\<not> isfile (disk \<lparr>disk = [(''README.md'', ''x'')], stdout = []\<rparr>) ''src/lib.rs'' \<and>
   script [''util/update_lints.py''] \<lparr>disk = [(''README.md'', ''x'')], stdout = []\<rparr> =
     (0, \<lparr>disk = [(''README.md'', ''x'')],
          stdout = ''Error: call this script from clippy checkout directory!\<newline>''\<rparr>)"
proof -
  have h: "\<not> isfile (disk \<lparr>disk = [(''README.md'', ''x'')], stdout = []\<rparr>) ''src/lib.rs''"
    by (simp add: isfile_def)
  show ?thesis
    using h main_missing_marker [OF h, of False False "[''util/update_lints.py'']"]
    by (simp add: script_def exit_status_def nl_def)
qed





section \<open>The record that \<^verbatim>\<open>collect\<close> builds\<close>

lemma skip_ws_head: "skip_ws s = x # xs \<Longrightarrow> \<not> is_space x"
  unfolding skip_ws_def by (metis dropWhile_eq_Cons_conv)

lemma is_space_nl: "is_space nl"
  by (simp add: is_space_def nl_def)

lemma nl_escape_sub_head:
  "nl_escape_sub s = x # xs \<Longrightarrow> x = nl \<Longrightarrow> \<exists>t. s = nl # t"
proof (induction s arbitrary: xs rule: nl_escape_sub.induct)
  case 1
  then show ?case by simp
next
  case (2 c)
  then show ?case by simp
next
  case (3 c d ds)
  show ?case
  proof (cases "c = bsl \<and> d = nl")
    case True
    with 3 have "\<exists>t. skip_ws ds = nl # t" by simp
    then show ?thesis using skip_ws_head is_space_nl by blast
  next
    case False
    with 3 show ?thesis by auto
  qed
qed

lemma nl_escape_sub_no_pair: "nl_escape_sub s \<noteq> a @ bsl # nl # b"
proof (induction s arbitrary: a rule: nl_escape_sub.induct)
  case 1
  show ?case by simp
next
  case (2 c)
  show ?case by simp
next
  case (3 c d ds)
  show ?case
  proof (cases "c = bsl \<and> d = nl")
    case True
    with 3 show ?thesis by simp
  next
    case False
    show ?thesis
    proof
      assume eq: "nl_escape_sub (c # d # ds) = a @ bsl # nl # b"
      with False have eq': "c # nl_escape_sub (d # ds) = a @ bsl # nl # b" by auto
      show False
      proof (cases a)
        case Nil
        with eq' have "c = bsl" and "nl_escape_sub (d # ds) = nl # b" by simp_all
        then have "c = bsl" and "d = nl" using nl_escape_sub_head by fastforce+
        with False show False by simp
      next
        case (Cons x a')
        with eq' have "nl_escape_sub (d # ds) = a' @ bsl # nl # b" by simp
        with 3(2) False show False by blast
      qed
    qed
  qed
qed

lemma nl_escape_sub_no_bsl: "bsl \<notin> set s \<Longrightarrow> nl_escape_sub s = s"
  by (induction s rule: nl_escape_sub.induct) auto

lemma nl_escape_sub_append:
  "bsl \<notin> set a \<Longrightarrow> nl_escape_sub (a @ c # t) = a @ nl_escape_sub (c # t)"
proof (induction a)
  case Nil
  show ?case by simp
next
  case (Cons x a)
  then show ?case by (cases a) auto
qed

lemma skip_ws_spaces: "\<forall>c\<in>set ws. is_space c \<Longrightarrow> skip_ws (ws @ b) = skip_ws b"
  by (simp add: skip_ws_def dropWhile_append)

lemma replace_escaped_quote_no_bsl: "bsl \<notin> set s \<Longrightarrow> replace_escaped_quote s = s"
  by (induction s rule: replace_escaped_quote.induct) auto

lemma replace_escaped_quote_append:
  "bsl \<notin> set a \<Longrightarrow>
   replace_escaped_quote (a @ c # t) = a @ replace_escaped_quote (c # t)"
proof (induction a)
  case Nil
  show ?case by simp
next
  case (Cons x a)
  then show ?case by (cases a) auto
qed

lemma special_chars: "bsl \<noteq> nl" "bsl \<noteq> dquote" "dquote \<noteq> nl"
  by (simp_all add: bsl_def nl_def dquote_def)

lemma continuation_joined:
  assumes "bsl \<notin> set a" and "bsl \<notin> set b" and "\<forall>c\<in>set ws. is_space c"
  shows "replace_escaped_quote (nl_escape_sub (a @ [bsl, nl] @ ws @ b)) = a @ skip_ws b"
proof -
  have sb: "bsl \<notin> set (skip_ws b)"
    using assms(2) set_dropWhileD unfolding skip_ws_def by fastforce
  have "nl_escape_sub (a @ [bsl, nl] @ ws @ b) = a @ nl_escape_sub (bsl # nl # ws @ b)"
    using nl_escape_sub_append [OF assms(1)] by simp
  also have "\<dots> = a @ nl_escape_sub (skip_ws b)"
    using skip_ws_spaces [OF assms(3)] by simp
  also have "\<dots> = a @ skip_ws b"
    using sb by (simp add: nl_escape_sub_no_bsl)
  finally show ?thesis
    using assms(1) sb by (simp add: replace_escaped_quote_no_bsl)
qed

lemma escaped_quote_literal:
  assumes "bsl \<notin> set a" and "bsl \<notin> set b"
  shows "replace_escaped_quote (nl_escape_sub (a @ [bsl, dquote] @ b)) = a @ [dquote] @ b"
proof -
  have "nl_escape_sub (a @ [bsl, dquote] @ b) = a @ nl_escape_sub (bsl # dquote # b)"
    using nl_escape_sub_append [OF assms(1)] by simp
  also have "\<dots> = a @ bsl # dquote # b"
    using assms(2) special_chars by (simp add: nl_escape_sub_no_bsl)
  finally show ?thesis
    using assms replace_escaped_quote_append [OF assms(1), of bsl "dquote # b"]
    by (simp add: replace_escaped_quote_no_bsl)
qed

lemma rfind_last: "c \<notin> set t \<Longrightarrow> rfind c (s @ c # t) = int (length s)"
proof -
  assume a: "c \<notin> set t"
  have "takeWhile (\<lambda>x. x \<noteq> c) (rev t @ c # rev s) = rev t"
    using a by (subst takeWhile_append2) auto
  then show ?thesis by (simp add: rfind_def)
qed

lemma rfind_none: "c \<notin> set s \<Longrightarrow> rfind c s = - 1"
  by (simp add: rfind_def)

lemma basename_eq:
  "CHR ''/'' \<notin> set name \<Longrightarrow> basename (dir @ CHR ''/'' # name) = name"
  by (simp add: basename_def rfind_last nat_add_distrib)

lemma splitext_root_eq:
  assumes "CHR ''/'' \<notin> set stem" and "CHR ''/'' \<notin> set ext" and "CHR ''.'' \<notin> set ext"
    and "\<exists>c\<in>set stem. c \<noteq> CHR ''.''"
  shows "splitext_root (stem @ CHR ''.'' # ext) = stem"
proof -
  have sep: "rfind (CHR ''/'') (stem @ CHR ''.'' # ext) = - 1"
    using assms(1,2) by (simp add: rfind_none)
  have dot: "rfind (CHR ''.'') (stem @ CHR ''.'' # ext) = int (length stem)"
    using assms(3) by (rule rfind_last)
  show ?thesis
    using assms(4) by (simp add: splitext_root_def sep dot list_ex_iff)
qed

text \<open>
  C7. When the text of a file starts with a declaration that the pattern matches, with
  the groups \<open>name\<close>, \<open>level\<close> and \<open>desc\<close>, \<^verbatim>\<open>collect\<close> appends the lint whose module is
  the base name of the file without its extension, whose name and level are the groups
  in lower case, and whose description is \<open>desc\<close> with first every backslash-newline and
  the white space after it removed, then every \<^verbatim>\<open>\"\<close> replaced by \<^verbatim>\<open>"\<close>; after it come
  the lints of the rest of the text. After the first step no backslash is followed by a
  newline any more. A continuation (backslash, newline, white space) between two pieces
  of plain text joins them, with no newline in the result when the pieces have none; an
  escaped quote between two pieces of plain text becomes a quote. For a path
  \<open>dir/stem.ext\<close> the module is \<open>stem\<close>.
\<close>

theorem collect_builds_record:
  "(match_declare_lint code = Some ((name, level, desc), rest) \<and>
    read_file files fn = Inr code \<longrightarrow>
      collect lints fn files =
        Inr (lints @
             (splitext_root (basename fn), lower name, lower level,
              replace_escaped_quote (nl_escape_sub desc)) #
             map (lint_of_match fn) (finditer rest)))
   \<and> (\<forall>a b. nl_escape_sub desc \<noteq> a @ [bsl, nl] @ b)
   \<and> (bsl \<notin> set a \<and> bsl \<notin> set b \<and> (\<forall>c\<in>set ws. is_space c) \<longrightarrow>
        replace_escaped_quote (nl_escape_sub (a @ [bsl, nl] @ ws @ b)) = a @ skip_ws b \<and>
        (nl \<notin> set a \<and> nl \<notin> set b \<longrightarrow> nl \<notin> set (a @ skip_ws b)))
   \<and> (bsl \<notin> set a \<and> bsl \<notin> set b \<longrightarrow>
        replace_escaped_quote (nl_escape_sub (a @ [bsl, dquote] @ b)) = a @ [dquote] @ b)
   \<and> (CHR ''/'' \<notin> set stem \<and> CHR ''/'' \<notin> set ext \<and> CHR ''.'' \<notin> set ext \<and>
       (\<exists>c\<in>set stem. c \<noteq> CHR ''.'') \<longrightarrow>
        splitext_root (basename (dir @ [CHR ''/''] @ stem @ [CHR ''.''] @ ext)) = stem)"
proof (intro conjI impI allI)
  assume a: "match_declare_lint code = Some ((name, level, desc), rest) \<and>
    read_file files fn = Inr code"
  then have "length rest < length code"
    using match_declare_lint_length by blast
  then obtain c cs where code: "code = c # cs"
    by (cases code) auto
  with a have "finditer code = (name, level, desc) # finditer rest"
    by simp
  with a show "collect lints fn files =
        Inr (lints @
             (splitext_root (basename fn), lower name, lower level,
              replace_escaped_quote (nl_escape_sub desc)) #
             map (lint_of_match fn) (finditer rest))"
    by (simp add: collect_eq lint_of_match_def)
next
  fix a b
  show "nl_escape_sub desc \<noteq> a @ [bsl, nl] @ b"
    using nl_escape_sub_no_pair [of desc a b] by simp
next
  assume "bsl \<notin> set a \<and> bsl \<notin> set b \<and> (\<forall>c\<in>set ws. is_space c)"
  then show "replace_escaped_quote (nl_escape_sub (a @ [bsl, nl] @ ws @ b)) = a @ skip_ws b"
    using continuation_joined by blast
next
  assume "nl \<notin> set a \<and> nl \<notin> set b"
  then show "nl \<notin> set (a @ skip_ws b)"
    using set_dropWhileD unfolding skip_ws_def by fastforce
next
  assume "bsl \<notin> set a \<and> bsl \<notin> set b"
  then show "replace_escaped_quote (nl_escape_sub (a @ [bsl, dquote] @ b)) = a @ [dquote] @ b"
    using escaped_quote_literal by blast
next
  assume s: "CHR ''/'' \<notin> set stem \<and> CHR ''/'' \<notin> set ext \<and> CHR ''.'' \<notin> set ext \<and>
       (\<exists>c\<in>set stem. c \<noteq> CHR ''.'')"
  then have "basename (dir @ [CHR ''/''] @ stem @ [CHR ''.''] @ ext) = stem @ CHR ''.'' # ext"
    using basename_eq [of "stem @ CHR ''.'' # ext" dir] by simp
  with s show "splitext_root (basename (dir @ [CHR ''/''] @ stem @ [CHR ''.''] @ ext)) = stem"
    by (simp add: splitext_root_eq)
qed

theorem collect_builds_record_witness:
  "match_declare_lint foo_bar_decl =
     Some ((''FOO_BAR'', ''Warn'', ''does a thing'' @ [bsl, dquote] @ ''s''), []) \<and>
   read_file [(''src/x.rs'', foo_bar_decl)] ''src/x.rs'' = Inr foo_bar_decl \<and>
   collect [] ''src/x.rs'' [(''src/x.rs'', foo_bar_decl)] =
     Inr [(''x'', ''foo_bar'', ''warn'', ''does a thing'' @ [dquote] @ ''s'')]"
proof -
  have m: "match_declare_lint foo_bar_decl =
     Some ((''FOO_BAR'', ''Warn'', ''does a thing'' @ [bsl, dquote] @ ''s''), [])"
    by code_simp
  have r: "read_file [(''src/x.rs'', foo_bar_decl)] ''src/x.rs'' = Inr foo_bar_decl"
    by (simp add: read_file_def)
  have ev: "splitext_root (basename ''src/x.rs'') = ''x''" "lower ''FOO_BAR'' = ''foo_bar''"
    "lower ''Warn'' = ''warn''"
    "replace_escaped_quote (nl_escape_sub (''does a thing'' @ [bsl, dquote] @ ''s'')) =
       ''does a thing'' @ [dquote] @ ''s''"
    by code_simp+
  have "collect [] ''src/x.rs'' [(''src/x.rs'', foo_bar_decl)] =
        Inr ([] @
             (splitext_root (basename ''src/x.rs''), lower ''FOO_BAR'', lower ''Warn'',
              replace_escaped_quote (nl_escape_sub (''does a thing'' @ [bsl, dquote] @ ''s''))) #
             map (lint_of_match ''src/x.rs'') (finditer []))"
    using m r
      collect_builds_record [where code = foo_bar_decl and name = "''FOO_BAR''"
        and level = "''Warn''" and desc = "''does a thing'' @ [bsl, dquote] @ ''s''"
        and rest = "[]" and files = "[(''src/x.rs'', foo_bar_decl)]" and fn = "''src/x.rs''"
        and lints = "[]"]
    by blast
  with m r ev show ?thesis by simp
qed

section \<open>Running the script twice\<close>

lemma scan_lines_pure:
  "scan_lines region_start region_end (\<lambda>u::unit. (g, u)) rs ls acc io () =
   (case splice_lines region_start region_end g rs ls io of
      Inl e \<Rightarrow> (Inl e, ())
    | Inr r \<Rightarrow> (Inr (acc @ r), ()))"
proof (induction ls arbitrary: acc io)
  case Nil
  show ?case by simp
next
  case (Cons l ls)
  show ?case
    using Cons.IH by (cases g; cases rs) (auto split: sum.splits)
qed

lemma replace_region_pure:
  "replace_region fn region_start region_end (\<lambda>u::unit. (g, u)) rs wb files () =
   (case read_file files fn of
      Inl e \<Rightarrow> (Inl e, files, ())
    | Inr content \<Rightarrow>
        (case splice_lines region_start region_end g rs (file_lines content) False of
           Inl e \<Rightarrow> (Inl e, files, ())
         | Inr new_lines \<Rightarrow>
             (Inr (file_lines content \<noteq> new_lines),
              if wb then write_lines fn new_lines files else files, ())))"
  by (simp add: replace_region_def scan_lines_pure Let_def split: sum.splits)

lemma complete_line_Cons:
  "complete_line (c # cs) \<longleftrightarrow> (if cs = [] then c = nl else c \<noteq> nl \<and> complete_line cs)"
  by (auto simp: complete_line_def)

lemma file_lines_complete:
  "complete_line l \<Longrightarrow> file_lines (l @ s) = l # file_lines s"
proof (induction l)
  case Nil
  then show ?case by (simp add: complete_line_def)
next
  case (Cons c cs)
  then show ?case by (cases "cs = []") (auto simp: complete_line_Cons)
qed

lemma file_lines_tail: "l \<noteq> [] \<Longrightarrow> nl \<notin> set l \<Longrightarrow> file_lines l = [l]"
proof (induction l)
  case Nil
  then show ?case by simp
next
  case (Cons c cs)
  then show ?case by (cases "cs = []") auto
qed

lemma file_lines_concat: "file_like ls \<Longrightarrow> file_lines (concat ls) = ls"
proof (induction ls rule: file_like.induct)
  case 1
  show ?case by simp
next
  case (2 l)
  then show ?case
    using file_lines_complete [of l "[]"] file_lines_tail [of l] by auto
next
  case (3 l v va)
  then show ?case by (simp add: file_lines_complete)
qed

lemma file_like_file_lines: "file_like (file_lines s)"
proof (induction s)
  case Nil
  show ?case by simp
next
  case (Cons c s)
  show ?case
  proof (cases "c = nl")
    case True
    with Cons show ?thesis
      by (cases "file_lines s") (auto simp: complete_line_def)
  next
    case False
    show ?thesis
    proof (cases "file_lines s")
      case Nil
      with False show ?thesis by simp
    next
      case (Cons l ls)
      with False Cons.IH show ?thesis
        by (cases ls) (auto simp: complete_line_Cons complete_line_def)
    qed
  qed
qed

lemma file_like_Cons: "complete_line l \<Longrightarrow> file_like ls \<Longrightarrow> file_like (l # ls)"
  by (cases ls) simp_all

lemma file_like_append:
  "\<forall>l\<in>set a. complete_line l \<Longrightarrow> file_like b \<Longrightarrow> file_like (a @ b)"
  by (induction a) (simp_all add: file_like_Cons)

lemma file_like_snoc:
  "\<forall>l\<in>set a. complete_line l \<Longrightarrow> file_like [l] \<Longrightarrow> file_like (a @ [l])"
  by (rule file_like_append)

lemma splice_lines_file_like:
  assumes "\<And>gl. g = Inr gl \<Longrightarrow> \<forall>l\<in>set gl. complete_line l"
  shows "file_like ls \<Longrightarrow> splice_lines st en g rs ls io = Inr out \<Longrightarrow> file_like out"
proof (induction ls arbitrary: io out)
  case Nil
  then show ?case by simp
next
  case (Cons l ls)
  show ?case
  proof (cases ls)
    case Nil
    with Cons.prems have l: "file_like [l]" by simp
    from Cons.prems(2) Nil assms have
      "out = [] \<or> out = [l] \<or> (\<exists>gl. (\<forall>x\<in>set gl. complete_line x) \<and> out = gl @ [l])"
      by (auto split: if_splits sum.splits)
    with l show ?thesis
      using file_like_snoc by auto
  next
    case (Cons l' ls')
    with Cons.prems(1) have l: "complete_line l" and ls: "file_like ls" by simp_all
    note IH = Cons.IH [OF ls]
    from Cons.prems(2) consider
        (drop) "splice_lines st en g rs ls True = Inr out"
      | (keep) r b where "splice_lines st en g rs ls b = Inr r" "out = l # r"
      | (gen) gl r where "g = Inr gl" "splice_lines st en g rs ls False = Inr r"
          "out = gl @ l # r"
      by (auto split: if_splits sum.splits)
    then show ?thesis
    proof cases
      case drop
      then show ?thesis by (rule IH)
    next
      case keep
      with IH l show ?thesis by (simp add: file_like_Cons)
    next
      case gen
      with IH l assms show ?thesis
        using file_like_append [of gl "l # r"] by (simp add: file_like_Cons)
    qed
  qed
qed

lemma splice_lines_skip:
  "\<forall>l\<in>set mid. \<not> en l \<Longrightarrow>
   splice_lines st en g rs (mid @ rest) True = splice_lines st en g rs rest True"
  by (induction mid) simp_all

lemma splice_lines_keep:
  "\<forall>l\<in>set pre. \<not> st l \<Longrightarrow>
   splice_lines st en g rs (pre @ rest) False =
   (case splice_lines st en g rs rest False of Inl e \<Rightarrow> Inl e | Inr r \<Rightarrow> Inr (pre @ r))"
  by (induction pre) (auto split: sum.splits)

lemma splice_lines_settled:
  "(splice_lines st en g rs x False = Inr y \<longrightarrow> settled st en g rs y) \<and>
   (splice_lines st en g rs x True = Inr y \<longrightarrow>
      y = [] \<or> (\<exists>gl e r. g = Inr gl \<and> en e \<and> settled st en g rs r \<and> y = gl @ e # r))"
proof (induction x arbitrary: y)
  case Nil
  show ?case by (auto intro: settled.intros)
next
  case (Cons l x)
  show ?case
  proof (intro conjI impI)
    assume a: "splice_lines st en g rs (l # x) False = Inr y"
    show "settled st en g rs y"
    proof (cases "st l")
      case False
      with a obtain r where "splice_lines st en g rs x False = Inr r" "y = l # r"
        by (auto split: sum.splits)
      with Cons False show ?thesis by (auto intro: settled.intros)
    next
      case True
      with a obtain r where r: "splice_lines st en g rs x True = Inr r"
        "y = (if rs then r else l # r)"
        by (auto split: sum.splits)
      with Cons have "r = [] \<or> (\<exists>gl e r'. g = Inr gl \<and> en e \<and> settled st en g rs r' \<and>
          r = gl @ e # r')"
        by blast
      then show ?thesis
      proof
        assume "r = []"
        with r True show ?thesis by (auto intro: settled.intros)
      next
        assume "\<exists>gl e r'. g = Inr gl \<and> en e \<and> settled st en g rs r' \<and> r = gl @ e # r'"
        then obtain gl e r' where "g = Inr gl" "en e" "settled st en g rs r'" "r = gl @ e # r'"
          by blast
        with r True show ?thesis
          by (cases rs) (auto intro: settled_region settled_kept_region)
      qed
    qed
  next
    assume a: "splice_lines st en g rs (l # x) True = Inr y"
    show "y = [] \<or> (\<exists>gl e r. g = Inr gl \<and> en e \<and> settled st en g rs r \<and> y = gl @ e # r)"
    proof (cases "en l")
      case False
      with a Cons show ?thesis by simp
    next
      case True
      with a obtain gl r where "g = Inr gl" "splice_lines st en g rs x False = Inr r"
        "y = gl @ l # r"
        by (auto split: sum.splits)
      with Cons True show ?thesis by blast
    qed
  qed
qed

lemma settled_fixed:
  assumes "settled st en g rs y"
    and "\<And>gl. rs \<Longrightarrow> g = Inr gl \<Longrightarrow> gl \<noteq> [] \<and> st (hd gl) \<and> (\<forall>l\<in>set (tl gl). \<not> en l)"
    and "\<And>gl. \<not> rs \<Longrightarrow> g = Inr gl \<Longrightarrow> \<forall>l\<in>set gl. \<not> en l"
  shows "splice_lines st en g rs y False = Inr y"
  using assms(1)
proof (induction rule: settled.induct)
  case settled_Nil
  show ?case by simp
next
  case (settled_keep l r)
  then show ?case by simp
next
  case (settled_region gl e r)
  from assms(2) [OF settled_region(4,1)] obtain g1 gs where
    gl: "gl = g1 # gs" and g1: "st g1" and gs: "\<forall>l\<in>set gs. \<not> en l"
    by (cases gl) auto
  have "splice_lines st en g rs (gl @ e # r) False =
        (case splice_lines st en g rs (gs @ e # r) True of
           Inl err \<Rightarrow> Inl err | Inr r' \<Rightarrow> Inr r')"
    using gl g1 settled_region(4) by (simp split: sum.splits)
  also have "splice_lines st en g rs (gs @ e # r) True = splice_lines st en g rs (e # r) True"
    using gs by (rule splice_lines_skip)
  also have "\<dots> = Inr (gl @ e # r)"
    using settled_region by simp
  finally show ?case by simp
next
  case (settled_kept_region gl s e r)
  from assms(3) [OF settled_kept_region(5,1)] have gs: "\<forall>l\<in>set gl. \<not> en l" .
  have "splice_lines st en g rs (s # gl @ e # r) False =
        (case splice_lines st en g rs (gl @ e # r) True of
           Inl err \<Rightarrow> Inl err | Inr r' \<Rightarrow> Inr (s # r'))"
    using settled_kept_region(2,5) by (simp split: sum.splits)
  also have "splice_lines st en g rs (gl @ e # r) True = splice_lines st en g rs (e # r) True"
    using gs by (rule splice_lines_skip)
  also have "\<dots> = Inr (gl @ e # r)"
    using settled_kept_region by simp
  finally show ?case by simp
next
  case (settled_open s)
  then show ?case by simp
qed

lemma settled_after_count:
  assumes "settled stA enA gA True y"
    and cl: "\<not> stA cl"
    and gA: "\<And>gl. gA = Inr gl \<Longrightarrow> \<forall>l\<in>set gl. \<not> stB l"
    and eA: "\<And>e. enA e \<Longrightarrow> \<not> stB e"
  shows "(\<forall>z. splice_lines stB (\<lambda>l. True) (Inr [cl]) True y False = Inr z \<longrightarrow>
            settled stA enA gA True z) \<and>
         (\<forall>z. splice_lines stB (\<lambda>l. True) (Inr [cl]) True y True = Inr z \<longrightarrow>
            settled stA enA gA True z)"
  using assms(1)
proof (induction rule: settled.induct)
  case settled_Nil
  show ?case by (auto intro: settled.intros)
next
  case (settled_keep l r)
  show ?case
  proof (intro conjI allI impI)
    fix z
    assume "splice_lines stB (\<lambda>l. True) (Inr [cl]) True (l # r) False = Inr z"
    with settled_keep show "settled stA enA gA True z"
      by (cases "stB l") (auto split: sum.splits intro: settled.settled_keep)
  next
    fix z
    assume "splice_lines stB (\<lambda>l. True) (Inr [cl]) True (l # r) True = Inr z"
    with settled_keep cl show "settled stA enA gA True z"
      by (auto split: sum.splits intro!: settled.settled_keep)
  qed
next
  case (settled_region gl e r)
  have nost: "\<forall>l\<in>set (gl @ [e]). \<not> stB l"
    using gA [OF settled_region(1)] eA [OF settled_region(2)] by simp
  have out: "splice_lines stB (\<lambda>l. True) (Inr [cl]) True (gl @ e # r) False =
     (case splice_lines stB (\<lambda>l. True) (Inr [cl]) True r False of
        Inl err \<Rightarrow> Inl err | Inr r' \<Rightarrow> Inr (gl @ e # r'))"
    using splice_lines_keep [OF nost, of "\<lambda>l. True" "Inr [cl]" True r]
    by (simp split: sum.splits)
  show ?case
  proof (intro conjI allI impI)
    fix z
    assume "splice_lines stB (\<lambda>l. True) (Inr [cl]) True (gl @ e # r) False = Inr z"
    with out obtain r' where "splice_lines stB (\<lambda>l. True) (Inr [cl]) True r False = Inr r'"
      and "z = gl @ e # r'"
      by (auto split: sum.splits)
    with settled_region show "settled stA enA gA True z"
      by (auto intro: settled.settled_region)
  next
    fix z
    assume a: "splice_lines stB (\<lambda>l. True) (Inr [cl]) True (gl @ e # r) True = Inr z"
    have "\<exists>r'. splice_lines stB (\<lambda>l. True) (Inr [cl]) True r False = Inr r' \<and>
               z = cl # gl @ e # r'"
    proof (cases gl)
      case Nil
      with a show ?thesis by (auto split: sum.splits)
    next
      case (Cons g1 gs)
      have "\<forall>l\<in>set (gs @ [e]). \<not> stB l"
        using nost Cons by simp
      then have "splice_lines stB (\<lambda>l. True) (Inr [cl]) True (gs @ e # r) False =
        (case splice_lines stB (\<lambda>l. True) (Inr [cl]) True r False of
           Inl err \<Rightarrow> Inl err | Inr r' \<Rightarrow> Inr (gs @ e # r'))"
        using splice_lines_keep [of "gs @ [e]" stB "\<lambda>l. True" "Inr [cl]" True r]
        by (simp split: sum.splits)
      with a Cons show ?thesis by (auto split: sum.splits)
    qed
    then obtain r' where "splice_lines stB (\<lambda>l. True) (Inr [cl]) True r False = Inr r'"
      and z: "z = cl # gl @ e # r'"
      by blast
    with settled_region have "settled stA enA gA True (gl @ e # r')"
      by (auto intro: settled.settled_region)
    with cl z show "settled stA enA gA True z"
      by (auto intro: settled.settled_keep)
  qed
next
  case (settled_kept_region gl s e r)
  then show ?case by simp
next
  case (settled_open s)
  then show ?case by simp
qed

lemma match_lit_append: "match_lit p (p @ s) = Some s"
  by (induction p) simp_all

lemma match_lit_Some: "match_lit p s = Some r \<Longrightarrow> s = p @ r"
  by (induction p s rule: match_lit.induct) (auto split: if_splits)

lemma complete_line_snoc: "nl \<notin> set t \<Longrightarrow> complete_line (t @ [nl])"
  by (simp add: complete_line_def)

lemma is_digit_char_of: "(k::nat) < 10 \<Longrightarrow> is_digit (char_of (48 + k))"
  by (simp add: is_digit_def less_eq_char_def)

lemma str_of_nat_digits: "str_of_nat n \<noteq> [] \<and> (\<forall>c\<in>set (str_of_nat n). is_digit c)"
proof (induction n rule: str_of_nat.induct)
  case (1 n)
  show ?case
  proof (cases "n < 10")
    case True
    then show ?thesis
      using is_digit_char_of [of n] by (subst str_of_nat.simps, subst (2) str_of_nat.simps) simp
  next
    case False
    with 1 show ?thesis
      using is_digit_char_of [of "n mod 10"]
      by (subst str_of_nat.simps, subst (2) str_of_nat.simps) simp
  qed
qed

lemma is_digit_not_nl: "is_digit c \<Longrightarrow> c \<noteq> nl"
  by (auto simp: is_digit_def less_eq_char_def nl_def)

lemma count_line_start: "count_start (count_line lints)"
proof -
  let ?d = "str_of_nat (length lints)"
  let ?t = "'' lints included in this crate:'' @ [nl]"
  have d: "?d \<noteq> []" "\<forall>c\<in>set ?d. is_digit c"
    using str_of_nat_digits by blast+
  have sp: "\<not> is_digit (CHR '' '')"
    by (simp add: is_digit_def less_eq_char_def)
  have tw: "takeWhile is_digit (?d @ ?t) = ?d"
    using d(2) sp by (subst takeWhile_append2) auto
  have dw: "dropWhile is_digit (?d @ ?t) = ?t"
    using d(2) sp by (subst dropWhile_append2) auto
  have m: "match_lit ''There are '' (count_line lints) = Some (?d @ ?t)"
    unfolding count_line_def using match_lit_append [of "''There are ''" "?d @ ?t"]
    by (simp del: match_lit.simps)
  have m2: "match_lit '' lints included in this crate:'' ?t \<noteq> None"
    using match_lit_append [of "'' lints included in this crate:''" "[nl]"] by simp
  have "count_start (count_line lints) \<longleftrightarrow>
        takeWhile is_digit (?d @ ?t) \<noteq> [] \<and>
        match_lit '' lints included in this crate:'' (dropWhile is_digit (?d @ ?t)) \<noteq> None"
    by (simp only: count_start_def m option.simps)
  also have "\<dots> \<longleftrightarrow> ?d \<noteq> [] \<and> match_lit '' lints included in this crate:'' ?t \<noteq> None"
    by (simp only: tw dw)
  finally show ?thesis
    using d(1) m2 by blast
qed

lemma count_line_not_table_start: "\<not> table_start (count_line lints)"
  by (simp add: table_start_def count_line_def)

lemma count_line_complete: "complete_line (count_line lints)"
proof -
  have "nl \<notin> set (''There are '' @ str_of_nat (length lints) @
                  '' lints included in this crate:'')"
    using str_of_nat_digits [of "length lints"] is_digit_not_nl
    by (auto simp: nl_def)
  then show ?thesis
    unfolding count_line_def using complete_line_snoc by fastforce
qed

lemma count_start_T: "count_start l \<Longrightarrow> \<exists>r. l = CHR ''T'' # r"
  by (cases l) (auto simp: count_start_def split: option.splits if_splits)

lemma table_end_not_count_start: "table_end e \<Longrightarrow> \<not> count_start e"
  by (auto simp: table_end_def nl_def dest: count_start_T)

lemma lower_char_name:
  "is_name_char c \<Longrightarrow> lower_char c \<noteq> nl \<and> lower_char c \<noteq> CHR ''T''"
proof -
  assume a: "is_name_char c"
  show ?thesis
  proof (cases "CHR ''A'' \<le> c \<and> c \<le> CHR ''Z''")
    case True
    then have n: "65 \<le> (of_char c :: nat)" "(of_char c :: nat) \<le> 90"
      by (simp_all add: less_eq_char_def)
    have "(of_char (lower_char c) :: nat) = of_char c + 32"
      using True n by (simp add: lower_char_def)
    then have "(of_char (lower_char c) :: nat) \<noteq> of_char nl"
      and "(of_char (lower_char c) :: nat) \<noteq> of_char (CHR ''T'')"
      using n by (simp_all add: nl_def)
    then show ?thesis by auto
  next
    case False
    with a have "c = CHR ''_''" by (simp add: is_name_char_def)
    then show ?thesis by (simp add: lower_char_def nl_def less_eq_char_def)
  qed
qed

lemma upper_char_nl: "upper_char c = nl \<Longrightarrow> c = nl"
proof (cases "CHR ''a'' \<le> c \<and> c \<le> CHR ''z''")
  case True
  then have n: "97 \<le> (of_char c :: nat)" "(of_char c :: nat) \<le> 122"
    by (simp_all add: less_eq_char_def)
  have "(of_char (upper_char c) :: nat) = of_char c - 32"
    using True n by (simp add: upper_char_def)
  then have "(of_char (upper_char c) :: nat) \<noteq> of_char nl"
    using n by (simp add: nl_def)
  moreover assume "upper_char c = nl"
  ultimately show ?thesis by simp
next
  case False
  moreover assume "upper_char c = nl"
  ultimately show ?thesis by (auto simp: upper_char_def split: if_splits)
qed

lemma upper_no_nl: "nl \<notin> set n \<Longrightarrow> nl \<notin> set (upper n)"
  by (auto simp: upper_def dest: upper_char_nl [OF sym])

lemma match_declare_lint_name:
  assumes "match_declare_lint s = Some ((n, l, d), r)"
  shows "n \<noteq> [] \<and> (\<forall>c\<in>set n. is_name_char c)"
proof -
  from assms obtain s4 where "n = takeWhile is_name_char s4" and "n \<noteq> []"
    by (auto simp: match_declare_lint_def split: Option.bind_splits if_splits)
  then show ?thesis
    using set_takeWhileD [of _ is_name_char s4] by blast
qed

lemma finditer_name:
  "(n, l, d) \<in> set (finditer s) \<Longrightarrow> n \<noteq> [] \<and> (\<forall>c\<in>set n. is_name_char c)"
proof (induction s rule: finditer.induct)
  case 1
  then show ?case by simp
next
  case (2 c cs)
  show ?case
  proof (cases "match_declare_lint (c # cs)")
    case None
    with 2 show ?thesis by simp
  next
    case (Some a)
    obtain n' l' d' rest where a: "a = ((n', l', d'), rest)" by (cases a) auto
    from Some a have hd: "n' \<noteq> [] \<and> (\<forall>c\<in>set n'. is_name_char c)"
      using match_declare_lint_name by blast
    have IH: "(n, l, d) \<in> set (finditer rest) \<Longrightarrow> n \<noteq> [] \<and> (\<forall>c\<in>set n. is_name_char c)"
      using 2(2) [OF Some, of "(n', l', d')" rest] a by simp
    from 2(3) Some a have "(n, l, d) = (n', l', d') \<or> (n, l, d) \<in> set (finditer rest)"
      by simp
    with hd IH show ?thesis by blast
  qed
qed

text \<open>What the renderers need of a lint to write lines that a file keeps as they are.\<close>

lemma collected_lints_plain:
  assumes "collect_all [] (walk_rs files) files = Inr lints"
    and "(module, name, level, desc) \<in> set lints"
  shows "nl \<notin> set name \<and> nl \<notin> set level \<and> (name = [] \<or> hd name \<noteq> CHR ''T'')"
proof -
  from assms obtain fn m where m: "m \<in> set (finditer (the (map_of files fn)))"
    and lm: "lint_of_match fn m = (module, name, level, desc)"
    unfolding collect_all_walk by auto
  obtain n l d where mm: "m = (n, l, d)" by (cases m) auto
  from m mm have n: "n \<noteq> []" "\<forall>c\<in>set n. is_name_char c"
    using finditer_name by blast+
  from lm mm have name: "name = lower n" by (simp add: lint_of_match_def)
  have "level \<in> {''forbid'', ''deny'', ''warn'', ''allow''}"
    using m lm by (rule lint_of_match_level)
  then have "nl \<notin> set level" by (auto simp: nl_def)
  moreover have "nl \<notin> set name"
  proof
    assume "nl \<in> set name"
    then obtain c where "c \<in> set n" "lower_char c = nl"
      using name by (auto simp: lower_def)
    with n(2) lower_char_name show False by blast
  qed
  moreover have "hd name \<noteq> CHR ''T''"
  proof (cases n)
    case Nil
    with n(1) show ?thesis by simp
  next
    case (Cons c cs)
    with n(2) have "is_name_char c" by simp
    then have "lower_char c \<noteq> CHR ''T''" using lower_char_name by blast
    with Cons name show ?thesis by (simp add: lower_def)
  qed
  ultimately show ?thesis by simp
qed

lemma set_ljust: "set (ljust w s) \<subseteq> set s \<union> {CHR '' ''}"
  by (auto simp: ljust_def)

lemma table_header_start: "table_start (ljust w ''name'' @ '' | default | meaning'' @ [nl])"
proof -
  let ?sp = "replicate (w - 4) (CHR '' '')"
  let ?t = "''| default | meaning'' @ [nl]"
  have m: "match_lit ''name'' (ljust w ''name'' @ '' | default | meaning'' @ [nl]) =
           Some (?sp @ CHR '' '' # ?t)"
    by (simp add: ljust_def)
  have tw: "takeWhile (\<lambda>c. c = CHR '' '') (?sp @ CHR '' '' # ?t) \<noteq> []"
    by (cases "w - 4") simp_all
  have "dropWhile (\<lambda>c. c = CHR '' '') (?sp @ CHR '' '' # ?t) =
        dropWhile (\<lambda>c. c = CHR '' '') (CHR '' '' # ?t)"
    by (subst dropWhile_append2) auto
  then have dw: "dropWhile (\<lambda>c. c = CHR '' '') (?sp @ CHR '' '' # ?t) = ?t"
    by simp
  have "table_start (ljust w ''name'' @ '' | default | meaning'' @ [nl]) \<longleftrightarrow>
        takeWhile (\<lambda>c. c = CHR '' '') (?sp @ CHR '' '' # ?t) \<noteq> [] \<and>
        match_char (\<lambda>c. c = CHR ''|'')
          (dropWhile (\<lambda>c. c = CHR '' '') (?sp @ CHR '' '' # ?t)) \<noteq> None"
    by (simp only: table_start_def m option.simps)
  also have "\<dots>"
    unfolding dw using tw by (simp add: match_char_def)
  finally show ?thesis .
qed

lemma count_start_hd: "count_start l \<Longrightarrow> l \<noteq> [] \<and> hd l = CHR ''T''"
  using count_start_T by fastforce

lemma table_end_length: "table_end l \<Longrightarrow> length l \<le> 1"
  by (auto simp: table_end_def)

lemma hd_ljust: "s \<noteq> [] \<Longrightarrow> hd (ljust w s @ t) = hd s"
  by (cases s) (simp_all add: ljust_def)

lemma hd_ljust_Nil: "hd (ljust w [] @ CHR '' '' # t) = CHR '' ''"
  by (cases w) (simp_all add: ljust_def)

lemma table_row_props:
  assumes "nl \<notin> set n" and "nl \<notin> set l" and "nl \<notin> set d"
    and "n = [] \<or> hd n \<noteq> CHR ''T''"
  shows "\<not> table_end (ljust w n @ '' | '' @ ljust 7 l @ '' | '' @ d @ [nl])"
    and "\<not> count_start (ljust w n @ '' | '' @ ljust 7 l @ '' | '' @ d @ [nl])"
    and "complete_line (ljust w n @ '' | '' @ ljust 7 l @ '' | '' @ d @ [nl])"
proof -
  let ?row = "ljust w n @ '' | '' @ ljust 7 l @ '' | '' @ d @ [nl]"
  have "1 < length ?row" by simp
  then show "\<not> table_end ?row"
    using table_end_length [of ?row] by fastforce
  have "hd ?row \<noteq> CHR ''T''"
  proof (cases n)
    case Nil
    then show ?thesis using hd_ljust_Nil [of w] by simp
  next
    case (Cons c cs)
    with assms(4) show ?thesis using hd_ljust [of n w] by simp
  qed
  then show "\<not> count_start ?row"
    using count_start_hd by blast
  have "nl \<notin> set (ljust w n @ '' | '' @ ljust 7 l @ '' | '' @ d)"
    using assms(1-3) set_ljust [of w n] set_ljust [of 7 l] by (auto simp: nl_def)
  then have "complete_line ((ljust w n @ '' | '' @ ljust 7 l @ '' | '' @ d) @ [nl])"
    by (rule complete_line_snoc)
  then show "complete_line ?row" by simp
qed

lemma table_header_props:
  "\<not> count_start (ljust w ''name'' @ '' | default | meaning'' @ [nl])"
  "complete_line (ljust w ''name'' @ '' | default | meaning'' @ [nl])"
proof -
  let ?h = "ljust w ''name'' @ '' | default | meaning'' @ [nl]"
  have "hd ?h = CHR ''n''" by (simp add: ljust_def)
  then show "\<not> count_start ?h"
    using count_start_hd [of ?h] by auto
  have "nl \<notin> set (ljust w ''name'' @ '' | default | meaning'')"
    using set_ljust [of w "''name''"] by (auto simp: nl_def)
  then have "complete_line ((ljust w ''name'' @ '' | default | meaning'') @ [nl])"
    by (rule complete_line_snoc)
  then show "complete_line ?h" by simp
qed

lemma table_underline_props:
  "\<not> table_end (replicate a (CHR ''-'') @ ''-|-'' @ replicate 7 (CHR ''-'') @ ''-|-'' @
      replicate b (CHR ''-'') @ [nl])"
  "\<not> count_start (replicate a (CHR ''-'') @ ''-|-'' @ replicate 7 (CHR ''-'') @ ''-|-'' @
      replicate b (CHR ''-'') @ [nl])"
  "complete_line (replicate a (CHR ''-'') @ ''-|-'' @ replicate 7 (CHR ''-'') @ ''-|-'' @
      replicate b (CHR ''-'') @ [nl])"
proof -
  let ?u = "replicate a (CHR ''-'') @ ''-|-'' @ replicate 7 (CHR ''-'') @ ''-|-'' @
      replicate b (CHR ''-'') @ [nl]"
  have "1 < length ?u" by simp
  then show "\<not> table_end ?u"
    using table_end_length [of ?u] by fastforce
  have "hd ?u = CHR ''-''" by (cases a) simp_all
  then show "\<not> count_start ?u"
    using count_start_hd [of ?u] by auto
  have "nl \<notin> set (replicate a (CHR ''-'') @ ''-|-'' @ replicate 7 (CHR ''-'') @ ''-|-'' @
      replicate b (CHR ''-''))"
    by (auto simp: nl_def)
  then have "complete_line ((replicate a (CHR ''-'') @ ''-|-'' @ replicate 7 (CHR ''-'') @
      ''-|-'' @ replicate b (CHR ''-'')) @ [nl])"
    by (rule complete_line_snoc)
  then show "complete_line ?u" by simp
qed

lemma gen_table_props:
  assumes "gen_table lints = Inr gl"
    and "\<forall>(m, n, l, d)\<in>set lints.
           nl \<notin> set n \<and> nl \<notin> set l \<and> nl \<notin> set d \<and> (n = [] \<or> hd n \<noteq> CHR ''T'')"
  shows "gl \<noteq> [] \<and> table_start (hd gl)"
    and "\<forall>x\<in>set (tl gl). \<not> table_end x"
    and "\<forall>x\<in>set gl. \<not> count_start x"
    and "\<forall>x\<in>set gl. complete_line x"
proof -
  let ?row = "\<lambda>w (m::string, n, l, d). ljust w n @ '' | '' @ ljust 7 l @ '' | '' @ d @ [nl]"
  from assms(1) obtain w_name w_desc where gl:
    "gl = (ljust w_name ''name'' @ '' | default | meaning'' @ [nl]) #
          (replicate w_name (CHR ''-'') @ ''-|-'' @ replicate 7 (CHR ''-'') @ ''-|-'' @
             replicate w_desc (CHR ''-'') @ [nl]) #
          map (?row w_name) (sort_key (\<lambda>l. fst (snd l)) lints)"
    by (auto simp: gen_table_def split: sum.splits)
  have rows: "\<not> table_end x \<and> \<not> count_start x \<and> complete_line x"
    if "x \<in> set (map (?row w_name) (sort_key (\<lambda>l. fst (snd l)) lints))" for x
  proof -
    from that obtain m n l d where "(m, n, l, d) \<in> set lints" and x: "x = ?row w_name (m, n, l, d)"
      by auto
    with assms(2) have "nl \<notin> set n" "nl \<notin> set l" "nl \<notin> set d" "n = [] \<or> hd n \<noteq> CHR ''T''"
      by auto
    then show ?thesis
      unfolding x using table_row_props [of n l d w_name] by simp
  qed
  show "gl \<noteq> [] \<and> table_start (hd gl)"
    unfolding gl using table_header_start [of w_name] by simp
  show "\<forall>x\<in>set (tl gl). \<not> table_end x"
    unfolding gl using rows table_underline_props(1) [of w_name w_desc] by auto
  show "\<forall>x\<in>set gl. \<not> count_start x"
    unfolding gl using rows table_underline_props(2) [of w_name w_desc]
      table_header_props(1) [of w_name] by auto
  show "\<forall>x\<in>set gl. complete_line x"
    unfolding gl using rows table_underline_props(3) [of w_name w_desc]
      table_header_props(2) [of w_name] by auto
qed

lemma gen_group_complete:
  assumes "\<forall>(m, n, l, d)\<in>set lints. nl \<notin> set m \<and> nl \<notin> set n"
  shows "\<forall>x\<in>set (gen_group lints). complete_line x"
proof
  fix x
  assume "x \<in> set (gen_group lints)"
  then obtain m n l d where in_l: "(m, n, l, d) \<in> set lints"
    and x: "x = ''        '' @ m @ ''::'' @ upper n @ '','' @ [nl]"
    by (auto simp: gen_group_def)
  with assms have "nl \<notin> set m" "nl \<notin> set (upper n)"
    using upper_no_nl by auto
  then have "nl \<notin> set (''        '' @ m @ ''::'' @ upper n @ '','')"
    by (auto simp: nl_def)
  then have "complete_line ((''        '' @ m @ ''::'' @ upper n @ '','') @ [nl])"
    by (rule complete_line_snoc)
  then show "complete_line x" unfolding x by simp
qed

lemma read_file_written: "read_file (write_lines fn ls files) fn = Inr (concat ls)"
  by (simp add: read_file_def write_lines_def update_conv')

lemma read_file_other:
  "fn' \<noteq> fn \<Longrightarrow> read_file (write_lines fn ls files) fn' = read_file files fn'"
  by (simp add: read_file_def write_lines_def update_conv')

lemma write_lines_same:
  "read_file files fn = Inr (concat ls) \<Longrightarrow> write_lines fn ls files = files"
  by (auto simp: read_file_def write_lines_def split: option.splits intro: update_triv)

lemma isfile_written: "isfile files p \<Longrightarrow> isfile (write_lines fn ls files) p"
  by (simp add: isfile_def write_lines_def update_conv')

lemma replace_region_written:
  assumes "replace_region fn st en (\<lambda>u::unit. (g, u)) rs True files () = (Inr c, files1, u)"
  shows "\<exists>content ls. read_file files fn = Inr content \<and>
           splice_lines st en g rs (file_lines content) False = Inr ls \<and>
           files1 = write_lines fn ls files"
  using assms by (auto simp: replace_region_pure split: sum.splits)

lemma replace_region_settled:
  assumes "read_file files fn = Inr (concat ls)" and "file_like ls"
    and "settled st en g rs ls"
    and "\<And>gl. rs \<Longrightarrow> g = Inr gl \<Longrightarrow> gl \<noteq> [] \<and> st (hd gl) \<and> (\<forall>l\<in>set (tl gl). \<not> en l)"
    and "\<And>gl. \<not> rs \<Longrightarrow> g = Inr gl \<Longrightarrow> \<forall>l\<in>set gl. \<not> en l"
  shows "replace_region fn st en (\<lambda>u::unit. (g, u)) rs wb files () = (Inr False, files, ())"
proof -
  have fl: "file_lines (concat ls) = ls"
    using assms(2) by (rule file_lines_concat)
  have sp: "splice_lines st en g rs ls False = Inr ls"
    using assms(3-5) by (rule settled_fixed)
  show ?thesis
    using assms(1) fl sp write_lines_same [OF assms(1)]
    by (simp add: replace_region_pure)
qed

lemma replace_regions_twice:
  assumes run: "replace_regions lints False files = (Inr c, files')"
    and plain: "\<forall>(m, n, l, d)\<in>set lints.
       nl \<notin> set m \<and> nl \<notin> set n \<and> nl \<notin> set l \<and> nl \<notin> set d \<and> (n = [] \<or> hd n \<noteq> CHR ''T'')"
    and noend: "\<forall>x\<in>set (gen_group lints). \<not> group_end x"
  shows "replace_regions lints check files' = (Inr False, files')"
proof -
  let ?A = "gen_table lints" and ?B = "Inr [count_line lints] :: py_error + string list"
  let ?C = "Inr (gen_group lints) :: py_error + string list"
  from run obtain c1 f1 c2 f2 c3 where
    a: "replace_region ''README.md'' table_start table_end (\<lambda>u::unit. (?A, u)) True True files () =
          (Inr c1, f1, ())"
    and b: "replace_region ''README.md'' count_start count_end (\<lambda>u::unit. (?B, u)) True True f1 () =
          (Inr c2, f2, ())"
    and c: "replace_region ''src/lib.rs'' group_start group_end (\<lambda>u::unit. (?C, u)) False True f2 () =
          (Inr c3, files', ())"
    by (auto simp: replace_regions_def split: sum.splits prod.splits)
  \<comment> \<open>the table of the first run\<close>
  have tplain: "\<forall>(m, n, l, d)\<in>set lints.
       nl \<notin> set n \<and> nl \<notin> set l \<and> nl \<notin> set d \<and> (n = [] \<or> hd n \<noteq> CHR ''T'')"
    using plain by auto
  have A_complete: "\<And>gl. ?A = Inr gl \<Longrightarrow> \<forall>l\<in>set gl. complete_line l"
    using gen_table_props(4) tplain by blast
  have A_good: "\<And>gl. True \<Longrightarrow> ?A = Inr gl \<Longrightarrow>
      gl \<noteq> [] \<and> table_start (hd gl) \<and> (\<forall>l\<in>set (tl gl). \<not> table_end l)"
    using gen_table_props(1,2) tplain by blast
  have A_count: "\<And>gl. ?A = Inr gl \<Longrightarrow> \<forall>l\<in>set gl. \<not> count_start l"
    using gen_table_props(3) tplain by blast
  from replace_region_written [OF a] obtain c0 La where
    c0: "read_file files ''README.md'' = Inr c0"
    and La: "splice_lines table_start table_end ?A True (file_lines c0) False = Inr La"
    and f1: "f1 = write_lines ''README.md'' La files"
    by blast
  have La_file: "file_like La"
    using A_complete file_like_file_lines La by (rule splice_lines_file_like)
  have La_settled: "settled table_start table_end ?A True La"
    using La splice_lines_settled by blast
  \<comment> \<open>the count line of the first run\<close>
  from replace_region_written [OF b] obtain c1' Lb where
    c1': "read_file f1 ''README.md'' = Inr c1'"
    and Lb': "splice_lines count_start count_end ?B True (file_lines c1') False = Inr Lb"
    and f2: "f2 = write_lines ''README.md'' Lb f1"
    by blast
  have "c1' = concat La"
    using c1' f1 by (simp add: read_file_written)
  with Lb' La_file have Lb: "splice_lines count_start count_end ?B True La False = Inr Lb"
    by (simp add: file_lines_concat)
  have B_complete: "\<And>gl. ?B = Inr gl \<Longrightarrow> \<forall>l\<in>set gl. complete_line l"
    using count_line_complete by auto
  have Lb_file: "file_like Lb"
    using B_complete La_file Lb by (rule splice_lines_file_like)
  have Lb_settled_B: "settled count_start count_end ?B True Lb"
    using Lb splice_lines_settled by blast
  have Lb_settled_A: "settled table_start table_end ?A True Lb"
    using settled_after_count [OF La_settled count_line_not_table_start, of count_start]
      A_count table_end_not_count_start Lb
    unfolding count_end_def by blast
  \<comment> \<open>the lint group of the first run\<close>
  from replace_region_written [OF c] obtain c2' Lc where
    c2': "read_file f2 ''src/lib.rs'' = Inr c2'"
    and Lc: "splice_lines group_start group_end ?C False (file_lines c2') False = Inr Lc"
    and f3: "files' = write_lines ''src/lib.rs'' Lc f2"
    by blast
  have gplain: "\<forall>(m, n, l, d)\<in>set lints. nl \<notin> set m \<and> nl \<notin> set n"
    using plain by auto
  have C_complete: "\<And>gl. ?C = Inr gl \<Longrightarrow> \<forall>l\<in>set gl. complete_line l"
    using gen_group_complete [OF gplain] by simp
  have Lc_file: "file_like Lc"
    using C_complete file_like_file_lines Lc by (rule splice_lines_file_like)
  have Lc_settled: "settled group_start group_end ?C False Lc"
    using Lc splice_lines_settled by blast
  \<comment> \<open>the files after the first run\<close>
  have readme: "read_file files' ''README.md'' = Inr (concat Lb)"
    unfolding f3 f2 by (simp add: read_file_other read_file_written)
  have librs: "read_file files' ''src/lib.rs'' = Inr (concat Lc)"
    unfolding f3 by (rule read_file_written)
  \<comment> \<open>the second run\<close>
  have a2: "replace_region ''README.md'' table_start table_end (\<lambda>u::unit. (?A, u)) True
      (\<not> check) files' () = (Inr False, files', ())"
    using readme Lb_file Lb_settled_A A_good by (rule replace_region_settled) simp_all
  have B_good: "\<And>gl. True \<Longrightarrow> ?B = Inr gl \<Longrightarrow>
      gl \<noteq> [] \<and> count_start (hd gl) \<and> (\<forall>l\<in>set (tl gl). \<not> count_end l)"
    using count_line_start by auto
  have b2: "replace_region ''README.md'' count_start count_end (\<lambda>u::unit. (?B, u)) True
      (\<not> check) files' () = (Inr False, files', ())"
    using readme Lb_file Lb_settled_B B_good by (rule replace_region_settled) simp_all
  have C_good: "\<And>gl. \<not> False \<Longrightarrow> ?C = Inr gl \<Longrightarrow> \<forall>l\<in>set gl. \<not> group_end l"
    using noend by auto
  have c2: "replace_region ''src/lib.rs'' group_start group_end (\<lambda>u::unit. (?C, u)) False
      (\<not> check) files' () = (Inr False, files', ())"
    using librs Lc_file Lc_settled _ C_good by (rule replace_region_settled) simp_all
  show ?thesis
    using a2 b2 c2 by (simp add: replace_regions_def)
qed

lemma replace_region_isfile:
  assumes "replace_region fn st en cb rs wb files s = (r, files1, s')" and "isfile files p"
  shows "isfile files1 p"
proof -
  from assms(1) have "files1 = files \<or> (\<exists>ls. files1 = write_lines fn ls files)"
    by (auto simp: replace_region_def Let_def split: sum.splits prod.splits if_splits)
  with assms(2) show ?thesis
    using isfile_written by auto
qed

lemma replace_regions_isfile:
  assumes "replace_regions lints check files = (r, files')" and "isfile files p"
  shows "isfile files' p"
  using assms
  by (auto simp: replace_regions_def split: sum.splits prod.splits
           dest: replace_region_isfile)

text \<open>
  C3, as amended. Let the script run in write mode from the project root and return, and
  let a second run collect the same lints as the first. If no module and no description
  of these lints holds a newline, and no line of the lint group matches the end pattern
  \<^verbatim>\<open>\]\);\<close>, then in the second run every call of \<^verbatim>\<open>replace_region\<close> returns false and
  leaves the files as they are: the flag \<^verbatim>\<open>changed\<close> is false, a second run in write mode
  changes nothing, and a run in check mode reports nothing.
\<close>

theorem second_run_changes_nothing:
  assumes "isfile (disk w) ''src/lib.rs''"
    and "main False False w = (Inr r, w')"
    and "collect_all [] (walk_rs (disk w)) (disk w) = Inr lints"
    and "collect_all [] (walk_rs (disk w')) (disk w') = Inr lints"
    and "\<forall>(module, name, level, desc)\<in>set lints. nl \<notin> set module \<and> nl \<notin> set desc"
    and "\<forall>line\<in>set (gen_group lints). \<not> group_end line"
  shows "replace_regions lints False (disk w') = (Inr False, disk w')
       \<and> main False False w' = (Inr None, w')
       \<and> main False True w' = (Inr None, w')"
proof -
  from assms(1-3) obtain c where run: "replace_regions lints False (disk w) = (Inr c, disk w')"
    and w': "w' = w\<lparr>disk := disk w'\<rparr>"
    by (auto simp: main_def split: sum.splits prod.splits if_splits)
  have plain: "\<forall>(m, n, l, d)\<in>set lints.
       nl \<notin> set m \<and> nl \<notin> set n \<and> nl \<notin> set l \<and> nl \<notin> set d \<and> (n = [] \<or> hd n \<noteq> CHR ''T'')"
    using assms(5) collected_lints_plain [OF assms(3)] by fastforce
  have twice: "replace_regions lints check (disk w') = (Inr False, disk w')" for check
    using run plain assms(6) by (rule replace_regions_twice)
  have "isfile (disk w') ''src/lib.rs''"
    using run assms(1) by (rule replace_regions_isfile)
  with twice assms(4) show ?thesis
    by (simp add: main_def)
qed

theorem second_run_changes_nothing_witness:
  "isfile tree1 ''src/lib.rs'' \<and>
   main False False \<lparr>disk = tree1, stdout = []\<rparr> = (Inr None, \<lparr>disk = tree1_written, stdout = []\<rparr>) \<and>
   collect_all [] (walk_rs tree1) tree1 = Inr [(''a'', ''a'', ''warn'', ''x'')] \<and>
   collect_all [] (walk_rs tree1_written) tree1_written = Inr [(''a'', ''a'', ''warn'', ''x'')] \<and>
   replace_regions [(''a'', ''a'', ''warn'', ''x'')] False tree1_written =
     (Inr False, tree1_written) \<and>
   main False False \<lparr>disk = tree1_written, stdout = []\<rparr> =
     (Inr None, \<lparr>disk = tree1_written, stdout = []\<rparr>) \<and>
   main False True \<lparr>disk = tree1_written, stdout = []\<rparr> =
     (Inr None, \<lparr>disk = tree1_written, stdout = []\<rparr>)"
proof -
  have h1: "isfile (disk \<lparr>disk = tree1, stdout = []\<rparr>) ''src/lib.rs''"
    by code_simp
  have h2: "main False False \<lparr>disk = tree1, stdout = []\<rparr> =
      (Inr None, \<lparr>disk = tree1_written, stdout = []\<rparr>)"
    by code_simp
  have h3: "collect_all [] (walk_rs (disk \<lparr>disk = tree1, stdout = []\<rparr>))
      (disk \<lparr>disk = tree1, stdout = []\<rparr>) = Inr [(''a'', ''a'', ''warn'', ''x'')]"
    by code_simp
  have h4: "collect_all [] (walk_rs (disk \<lparr>disk = tree1_written, stdout = []\<rparr>))
      (disk \<lparr>disk = tree1_written, stdout = []\<rparr>) = Inr [(''a'', ''a'', ''warn'', ''x'')]"
    by code_simp
  have h5: "\<forall>(module, name, level, desc)\<in>set [(''a'', ''a'', ''warn'', ''x'')].
      nl \<notin> set module \<and> nl \<notin> set desc"
    by (simp add: nl_def)
  have h6: "\<forall>line\<in>set (gen_group [(''a'', ''a'', ''warn'', ''x'')]). \<not> group_end line"
    by code_simp
  show ?thesis
    using h1 h2 h3 h4 second_run_changes_nothing [OF h1 h2 h3 h4 h5 h6]
    by simp
qed

text \<open>
  C3 as stated fails. In \<open>tree3\<close> the source file \<^verbatim>\<open>src/]);.rs\<close> gives its lint the module
  \<^verbatim>\<open>]);\<close>, so the line that the first run writes into the lint group of \<^verbatim>\<open>src/lib.rs\<close>
  matches the end pattern of the group. The second run collects the same lint, takes that
  line for the end of the region and puts the group before it once more: its
  \<^verbatim>\<open>replace_region\<close> on \<^verbatim>\<open>src/lib.rs\<close> returns true, \<^verbatim>\<open>changed\<close> is true, and a run in
  check mode returns 1.
\<close>

theorem second_run_changes_counterexample:
  "main False False \<lparr>disk = tree3, stdout = []\<rparr> =
     (Inr None, \<lparr>disk = tree3_written, stdout = []\<rparr>) \<and>
   collect_all [] (walk_rs tree3_written) tree3_written =
     Inr [('']);'', ''a'', ''warn'', ''x'')] \<and>
   fst (replace_regions [('']);'', ''a'', ''warn'', ''x'')] False tree3_written) = Inr True \<and>
   snd (replace_regions [('']);'', ''a'', ''warn'', ''x'')] False tree3_written) \<noteq>
     tree3_written \<and>
   fst (main False True \<lparr>disk = tree3_written, stdout = []\<rparr>) = Inr (Some 1)"
  by code_simp

text \<open>
  The other two conditions are needed as well. In \<open>tree4\<close> the first run removes the only
  declaration, which stands inside the lint group of \<^verbatim>\<open>src/lib.rs\<close>, so the second run
  collects no lint and \<^verbatim>\<open>gen_table\<close> raises. The description of the lint of \<open>tree2\<close> has
  two lines: the first run writes its table row as one line that holds a newline, the
  second run reads it back as two lines, writes the same bytes again and finds the new
  list of lines different from the one it read, so that \<^verbatim>\<open>changed\<close> is true although no
  byte of the file changes.
\<close>

lemma removed_declaration_example:
  "fst (main False False \<lparr>disk = tree4, stdout = []\<rparr>) = Inr None \<and>
   fst (main False False (snd (main False False \<lparr>disk = tree4, stdout = []\<rparr>))) =
     Inl ValueError"
  by code_simp

lemma newline_description_example:
  "main False False \<lparr>disk = tree2, stdout = []\<rparr> =
     (Inr None, \<lparr>disk = tree2_written, stdout = []\<rparr>) \<and>
   collect_all [] (walk_rs tree2_written) tree2_written =
     Inr [(''a'', ''a'', ''warn'', ''x\<newline>y'')] \<and>
   replace_regions [(''a'', ''a'', ''warn'', ''x\<newline>y'')] False tree2_written =
     (Inr True, tree2_written) \<and>
   fst (main False True \<lparr>disk = tree2_written, stdout = []\<rparr>) = Inr (Some 1)"
  by code_simp

section \<open>Check mode\<close>








end
